theory Spec2Isabelle
  imports Complex_Main "HOL-Library.Sublist" "HOL-Library.Multiset" "HOL-Library.Char_ord"
    "HOL-Library.List_Lexorder" "HOL-Library.Code_Target_Nat"
begin

section \<open>Data model of the Event Store (lib/database.ts)\<close>

text \<open>
  Timestamps are the readings of SQLite's \<^verbatim>\<open>datetime('now')\<close>, which have a resolution of
  one second: a stored reading is modelled as the number of seconds since 1970-01-01
  00:00:00 UTC (an \<open>int\<close>), whose order is the order of the stored texts
  \<^verbatim>\<open>YYYY-MM-DD HH:MM:SS\<close> for the years 0000 to 9999.
\<close>

type_synonym timestamp = int

text \<open>
  The text that the store holds for a reading, for the comparisons that the code makes
  with a text of the caller: the civil date of the day number, and the time of day.
\<close>

definition digit_char :: "int \<Rightarrow> char" where
  "digit_char n = char_of (48 + nat (n mod 10))"

definition pad2 :: "int \<Rightarrow> string" where
  "pad2 n = [digit_char (n div 10), digit_char n]"

definition pad4 :: "int \<Rightarrow> string" where
  "pad4 n = [digit_char (n div 1000), digit_char (n div 100), digit_char (n div 10), digit_char n]"

definition civil_date :: "int \<Rightarrow> int \<times> int \<times> int" where
  "civil_date days =
     (let z = days + 719468;
          era = z div 146097;
          doe = z mod 146097;
          yoe = (doe - doe div 1460 + doe div 36524 - doe div 146096) div 365;
          doy = doe - (365 * yoe + yoe div 4 - yoe div 100);
          mp = (5 * doy + 2) div 153;
          dd = doy - (153 * mp + 2) div 5 + 1;
          mm = (if mp < 10 then mp + 3 else mp - 9);
          yy = yoe + era * 400 + (if mm \<le> 2 then 1 else 0)
      in (yy, mm, dd))"

definition datetime_text :: "timestamp \<Rightarrow> string" where
  "datetime_text t =
     (let (yy, mm, dd) = civil_date (t div 86400); s = t mod 86400
      in pad4 yy @ ''-'' @ pad2 mm @ ''-'' @ pad2 dd @ '' '' @
         pad2 (s div 3600) @ '':'' @ pad2 (s mod 3600 div 60) @ '':'' @ pad2 (s mod 60))"

text \<open>
  The value of \<^verbatim>\<open>(julianday(datetime('now')) - julianday(started_at)) * 86400000\<close> is a
  floating-point number that the engine computes from the two readings, and need not be
  the exact number of milliseconds between them. A row holds it as
  the pair of the readings it is computed from; \<open>duration_value\<close> gives the number, for
  the engine's \<^verbatim>\<open>julianday\<close> and its rounding \<open>fl\<close> of a result to a floating-point
  number, which are not part of the repository and are parameters.
\<close>

datatype duration = JulianDiff timestamp timestamp

fun duration_value :: "(timestamp \<Rightarrow> real) \<Rightarrow> (real \<Rightarrow> real) \<Rightarrow> duration \<Rightarrow> real" where
  "duration_value julianday fl (JulianDiff now started) =
     fl (fl (julianday now - julianday started) * 86400000)"

text \<open>Values of type \<^verbatim>\<open>unknown\<close> that came out of \<^verbatim>\<open>JSON.parse\<close>.\<close>

datatype json =
    JNull
  | JBool bool
  | JNum int
  | JStr string
  | JArr "json list"
  | JObj "(string \<times> json) list"

text \<open>JavaScript truthiness, for the tests \<^verbatim>\<open>x ? .. : ..\<close> and \<^verbatim>\<open>x || y\<close> of the source.\<close>

fun truthy :: "json \<Rightarrow> bool" where
  "truthy JNull = False"
| "truthy (JBool b) = b"
| "truthy (JNum n) = (n \<noteq> 0)"
| "truthy (JStr s) = (s \<noteq> [])"
| "truthy (JArr xs) = True"
| "truthy (JObj kvs) = True"

text \<open>\<^verbatim>\<open>s || null\<close> for an optional string: the empty string is falsy.\<close>

definition str_or_null :: "string option \<Rightarrow> string option" where
  "str_or_null s = (case s of None \<Rightarrow> None | Some x \<Rightarrow> if x = [] then None else Some x)"

text \<open>\<^verbatim>\<open>v ? JSON.stringify(v) : null\<close>: the column keeps the serialised value, which is
  represented by the value itself.\<close>

definition json_or_null :: "json option \<Rightarrow> json option" where
  "json_or_null v = (case v of None \<Rightarrow> None | Some x \<Rightarrow> if truthy x then Some x else None)"

datatype tool_status = Pending | Success | Error | Interrupted

datatype agent_status = Running | Completed | AgentInterrupted

record session_row =
  s_id :: string
  s_started_at :: timestamp
  s_ended_at :: "timestamp option"
  s_project_root :: "string option"
  s_working_directory :: "string option"
  s_model :: "string option"
  s_git_branch :: "string option"
  s_metadata :: "json option"

record agent_row =
  a_id :: string
  a_session_id :: string
  a_parent_agent_id :: "string option"
  a_agent_type :: "json option"
  a_description :: "json option"
  a_started_at :: timestamp
  a_ended_at :: "timestamp option"
  a_status :: agent_status

record tool_use_row =
  t_id :: nat
  t_session_id :: string
  t_agent_id :: "string option"
  t_tool_name :: string
  t_tool_input :: "json option"
  t_tool_output :: "json option"
  t_started_at :: timestamp
  t_ended_at :: "timestamp option"
  t_duration_ms :: "duration option"
  t_status :: tool_status
  t_error :: "string option"

record event_row =
  e_id :: nat
  e_session_id :: string
  e_agent_id :: "string option"
  e_event_type :: string
  e_event_data :: "json option"
  e_timestamp :: timestamp

text \<open>
  The four tables, each in insertion order, and the two \<^verbatim>\<open>AUTOINCREMENT\<close> counters
  (the largest row id ever handed out, which SQLite keeps in \<^verbatim>\<open>sqlite_sequence\<close>).
  The schema declares foreign keys; the code never turns on their enforcement
  (\<^verbatim>\<open>PRAGMA foreign_keys\<close>), which SQLite leaves off by default, so no insert is
  refused for one.
\<close>

record database =
  sessions :: "session_row list"
  agents :: "agent_row list"
  tool_uses :: "tool_use_row list"
  events :: "event_row list"
  tool_seq :: nat
  event_seq :: nat

definition empty_db :: database where
  "empty_db = \<lparr>sessions = [], agents = [], tool_uses = [], events = [],
     tool_seq = 0, event_seq = 0\<rparr>"

text \<open>What a hook process can die of: an insert that the store refuses, and a
  \<^verbatim>\<open>TypeError\<close> of the JavaScript engine or of the binding of a statement parameter.\<close>

datatype db_error = ConstraintError | TypeError

subsection \<open>Session operations\<close>

record session_data =
  sd_projectRoot :: "string option"
  sd_workingDirectory :: "string option"
  sd_model :: "string option"
  sd_gitBranch :: "string option"
  sd_metadata :: "json option"

text \<open>\<^verbatim>\<open>INSERT OR REPLACE\<close>: a row with the same primary key is deleted first.\<close>

definition createSession :: "timestamp \<Rightarrow> string \<Rightarrow> session_data \<Rightarrow> database \<Rightarrow> database" where
  "createSession now sessionId data d =
     d\<lparr>sessions := filter (\<lambda>s. s_id s \<noteq> sessionId) (sessions d) @
        [\<lparr>s_id = sessionId, s_started_at = now, s_ended_at = None,
          s_project_root = str_or_null (sd_projectRoot data),
          s_working_directory = str_or_null (sd_workingDirectory data),
          s_model = str_or_null (sd_model data),
          s_git_branch = str_or_null (sd_gitBranch data),
          s_metadata = json_or_null (sd_metadata data)\<rparr>]\<rparr>"

definition endSession :: "timestamp \<Rightarrow> string \<Rightarrow> database \<Rightarrow> database" where
  "endSession now sessionId d =
     d\<lparr>sessions := map (\<lambda>s. if s_id s = sessionId then s\<lparr>s_ended_at := Some now\<rparr> else s)
        (sessions d)\<rparr>"

text \<open>The four \<^verbatim>\<open>DELETE\<close> statements, in the order of the source.\<close>

definition deleteSessions :: "string list \<Rightarrow> database \<Rightarrow> database" where
  "deleteSessions sessionIds d =
     (if length sessionIds = 0 then d
      else
        let d1 = d\<lparr>tool_uses := filter (\<lambda>t. t_session_id t \<notin> set sessionIds) (tool_uses d)\<rparr>;
            d2 = d1\<lparr>events := filter (\<lambda>e. e_session_id e \<notin> set sessionIds) (events d1)\<rparr>;
            d3 = d2\<lparr>agents := filter (\<lambda>a. a_session_id a \<notin> set sessionIds) (agents d2)\<rparr>
        in d3\<lparr>sessions := filter (\<lambda>s. s_id s \<notin> set sessionIds) (sessions d3)\<rparr>)"

subsection \<open>Result ordering and paging\<close>

text \<open>
  \<^verbatim>\<open>ORDER BY k DESC\<close>: SQL leaves the order of rows with equal keys open; the model keeps
  them in table order. \<^verbatim>\<open>LIMIT l OFFSET o\<close>: a negative limit means no limit, a
  negative offset means none.
\<close>

definition order_by_desc :: "('a \<Rightarrow> int) \<Rightarrow> 'a list \<Rightarrow> 'a list" where
  "order_by_desc k rows = sort_key (\<lambda>r. - k r) rows"

definition limit_offset :: "int \<Rightarrow> int \<Rightarrow> 'a list \<Rightarrow> 'a list" where
  "limit_offset l off rows =
     (let rest = drop (nat off) rows in if l < 0 then rest else take (nat l) rest)"

text \<open>\<^verbatim>\<open>n || dflt\<close> for an optional number.\<close>

definition num_or :: "int option \<Rightarrow> int \<Rightarrow> int" where
  "num_or n dflt = (case n of None \<Rightarrow> dflt | Some v \<Rightarrow> if v = 0 then dflt else v)"

text \<open>A filter that is applied only when its argument is a non-empty string.\<close>

definition str_given :: "string option \<Rightarrow> bool" where
  "str_given s = (case s of None \<Rightarrow> False | Some x \<Rightarrow> x \<noteq> [])"

definition getSessions :: "int \<Rightarrow> int \<Rightarrow> string option \<Rightarrow> database \<Rightarrow> session_row list" where
  "getSessions l off gitBranch d =
     (if str_given gitBranch
      then limit_offset l off (order_by_desc s_started_at
             (filter (\<lambda>s. s_git_branch s = gitBranch) (sessions d)))
      else limit_offset l off (order_by_desc s_started_at (sessions d)))"

subsection \<open>Agent operations\<close>

record agent_data =
  ad_id :: string
  ad_sessionId :: string
  ad_parentAgentId :: "string option"
  ad_agentType :: "json option"
  ad_description :: "json option"

text \<open>
  The type and the description of an agent are declared as texts, but they come from a
  parsed input whose type is not checked, so they are values of any kind. Binding a
  statement parameter accepts a text, a number, a boolean and null, and throws a
  \<^verbatim>\<open>TypeError\<close> for an array or an object. The two columns keep the text that the
  store makes of the bound value; the model keeps the bound value.
\<close>

fun bindable :: "json option \<Rightarrow> bool" where
  "bindable (Some (JArr xs)) = False"
| "bindable (Some (JObj kvs)) = False"
| "bindable v = True"

text \<open>A plain \<^verbatim>\<open>INSERT\<close>: the parameters are bound first; then a second row with the
  same primary key is refused and the statement throws.\<close>

definition createAgent :: "timestamp \<Rightarrow> agent_data \<Rightarrow> database \<Rightarrow> db_error + database" where
  "createAgent now data d =
     (if \<not> bindable (json_or_null (ad_agentType data)) \<or>
         \<not> bindable (json_or_null (ad_description data)) then Inl TypeError
      else if ad_id data \<in> a_id ` set (agents d) then Inl ConstraintError
      else Inr (d\<lparr>agents := agents d @
        [\<lparr>a_id = ad_id data, a_session_id = ad_sessionId data,
          a_parent_agent_id = str_or_null (ad_parentAgentId data),
          a_agent_type = json_or_null (ad_agentType data),
          a_description = json_or_null (ad_description data),
          a_started_at = now, a_ended_at = None, a_status = Running\<rparr>]\<rparr>))"

definition endAgent :: "timestamp \<Rightarrow> string \<Rightarrow> agent_status \<Rightarrow> database \<Rightarrow> database" where
  "endAgent now agentId status d =
     d\<lparr>agents := map (\<lambda>a. if a_id a = agentId
                            then a\<lparr>a_ended_at := Some now, a_status := status\<rparr> else a)
        (agents d)\<rparr>"

definition getAgents :: "string option \<Rightarrow> int \<Rightarrow> database \<Rightarrow> agent_row list" where
  "getAgents sessionId l d =
     (if str_given sessionId
      then limit_offset l 0 (order_by_desc a_started_at
             (filter (\<lambda>a. Some (a_session_id a) = sessionId) (agents d)))
      else limit_offset l 0 (order_by_desc a_started_at (agents d)))"

subsection \<open>Tool-use operations\<close>

record tool_start_data =
  ts_sessionId :: string
  ts_agentId :: "string option"
  ts_toolName :: string
  ts_toolInput :: "json option"

text \<open>Returns \<^verbatim>\<open>lastInsertRowid\<close> with the new store.\<close>

definition recordToolStart :: "timestamp \<Rightarrow> tool_start_data \<Rightarrow> database \<Rightarrow> nat \<times> database" where
  "recordToolStart now data d =
     (let i = Suc (tool_seq d) in
      (i, d\<lparr>tool_uses := tool_uses d @
         [\<lparr>t_id = i, t_session_id = ts_sessionId data,
           t_agent_id = str_or_null (ts_agentId data),
           t_tool_name = ts_toolName data,
           t_tool_input = json_or_null (ts_toolInput data),
           t_tool_output = None, t_started_at = now, t_ended_at = None,
           t_duration_ms = None, t_status = Pending, t_error = None\<rparr>],
         tool_seq := i\<rparr>))"

definition duration_since :: "timestamp \<Rightarrow> timestamp \<Rightarrow> duration" where
  "duration_since now started = JulianDiff now started"

record tool_end_data =
  te_output :: "json option"
  te_status :: tool_status
  te_error :: "string option"

definition recordToolEnd :: "timestamp \<Rightarrow> nat \<Rightarrow> tool_end_data \<Rightarrow> database \<Rightarrow> database" where
  "recordToolEnd now i data d =
     d\<lparr>tool_uses := map (\<lambda>t. if t_id t = i
          then t\<lparr>t_ended_at := Some now,
                 t_duration_ms := Some (duration_since now (t_started_at t)),
                 t_tool_output := json_or_null (te_output data),
                 t_status := te_status data,
                 t_error := str_or_null (te_error data)\<rparr>
          else t) (tool_uses d)\<rparr>"

text \<open>The common \<^verbatim>\<open>SET\<close> clause of the three statements that interrupt a row.\<close>

definition interrupt_row :: "timestamp \<Rightarrow> string \<Rightarrow> tool_use_row \<Rightarrow> tool_use_row" where
  "interrupt_row now msg t =
     t\<lparr>t_ended_at := Some now,
       t_duration_ms := Some (duration_since now (t_started_at t)),
       t_status := Interrupted,
       t_error := Some msg\<rparr>"

definition markPendingToolsInterrupted :: "timestamp \<Rightarrow> string \<Rightarrow> database \<Rightarrow> database" where
  "markPendingToolsInterrupted now sessionId d =
     d\<lparr>tool_uses := map (\<lambda>t. if t_session_id t = sessionId \<and> t_status t = Pending
          then interrupt_row now ''Session ended before tool completed'' t else t)
        (tool_uses d)\<rparr>"

definition ended_session_ids :: "database \<Rightarrow> string set" where
  "ended_session_ids d = set (map s_id (filter (\<lambda>s. s_ended_at s \<noteq> None) (sessions d)))"

text \<open>The two \<^verbatim>\<open>UPDATE\<close> statements of the sweep, the second on the result of the first;
  \<^verbatim>\<open>datetime('now', '-1 hour')\<close> is \<open>now - 3600\<close>.\<close>

definition cleanupStalePendingTools :: "timestamp \<Rightarrow> database \<Rightarrow> database" where
  "cleanupStalePendingTools now d =
     (let d1 = d\<lparr>tool_uses := map (\<lambda>t.
                  if t_status t = Pending \<and> t_session_id t \<in> ended_session_ids d
                  then interrupt_row now ''Session ended abnormally'' t else t)
                (tool_uses d)\<rparr>
      in d1\<lparr>tool_uses := map (\<lambda>t.
                  if t_status t = Pending \<and> t_started_at t < now - 3600
                  then interrupt_row now ''Stale pending tool (session likely ended abnormally)'' t
                  else t)
                (tool_uses d1)\<rparr>)"


record tool_use_filters =
  tuf_sessionId :: "string option"
  tuf_agentId :: "string option"
  tuf_toolName :: "string option"
  tuf_status :: "tool_status option"
  tuf_limit :: "int option"
  tuf_offset :: "int option"

text \<open>The conjunction of the conditions that were pushed, one per filter that is given.\<close>

definition tool_use_where :: "tool_use_filters \<Rightarrow> tool_use_row \<Rightarrow> bool" where
  "tool_use_where f t =
     ((str_given (tuf_sessionId f) \<longrightarrow> Some (t_session_id t) = tuf_sessionId f) \<and>
      (str_given (tuf_agentId f) \<longrightarrow> t_agent_id t = tuf_agentId f) \<and>
      (str_given (tuf_toolName f) \<longrightarrow> Some (t_tool_name t) = tuf_toolName f) \<and>
      (case tuf_status f of None \<Rightarrow> True | Some s \<Rightarrow> t_status t = s))"

definition getToolUses :: "tool_use_filters \<Rightarrow> database \<Rightarrow> tool_use_row list" where
  "getToolUses f d =
     limit_offset (num_or (tuf_limit f) 100) (num_or (tuf_offset f) 0)
       (order_by_desc t_started_at (filter (tool_use_where f) (tool_uses d)))"

subsection \<open>Event operations\<close>

record event_data =
  ev_sessionId :: string
  ev_agentId :: "string option"
  ev_eventType :: string
  ev_eventData :: "json option"

definition recordEvent :: "timestamp \<Rightarrow> event_data \<Rightarrow> database \<Rightarrow> database" where
  "recordEvent now data d =
     (let i = Suc (event_seq d) in
      d\<lparr>events := events d @
         [\<lparr>e_id = i, e_session_id = ev_sessionId data,
           e_agent_id = str_or_null (ev_agentId data),
           e_event_type = ev_eventType data,
           e_event_data = json_or_null (ev_eventData data),
           e_timestamp = now\<rparr>],
        event_seq := i\<rparr>)"

record event_filters =
  ef_sessionId :: "string option"
  ef_agentId :: "string option"
  ef_eventType :: "string option"
  ef_limit :: "int option"

definition event_where :: "event_filters \<Rightarrow> event_row \<Rightarrow> bool" where
  "event_where f ev =
     ((str_given (ef_sessionId f) \<longrightarrow> Some (e_session_id ev) = ef_sessionId f) \<and>
      (str_given (ef_agentId f) \<longrightarrow> e_agent_id ev = ef_agentId f) \<and>
      (str_given (ef_eventType f) \<longrightarrow> Some (e_event_type ev) = ef_eventType f))"

definition getEvents :: "event_filters \<Rightarrow> database \<Rightarrow> event_row list" where
  "getEvents f d =
     limit_offset (num_or (ef_limit f) 100) 0
       (order_by_desc e_timestamp (filter (event_where f) (events d)))"

subsection \<open>Timeline\<close>

text \<open>The time bounds are texts of the caller. A bound that is given (a non-empty text) is
  compared with the stored text of a reading, byte by byte, which is the order \<open>\<le>\<close> of
  \<open>string\<close>.\<close>

record timeline_filters =
  tf_sessionId :: "string option"
  tf_startTime :: "string option"
  tf_endTime :: "string option"
  tf_limit :: "int option"

record timeline_row =
  tl_type :: string
  tl_id :: nat
  tl_session_id :: string
  tl_agent_id :: "string option"
  tl_name :: string
  tl_timestamp :: timestamp
  tl_status :: "tool_status option"
  tl_duration_ms :: "duration option"
  tl_data :: "json option"

text \<open>The conditions are pushed in pairs, one for each table, with the same parameter:
  the same test on \<open>session_id\<close>, and on \<open>started_at\<close> for a tool use where it is on
  \<open>timestamp\<close> for an event.\<close>

definition timeline_where :: "timeline_filters \<Rightarrow> string \<Rightarrow> timestamp \<Rightarrow> bool" where
  "timeline_where f session_id reading =
     ((str_given (tf_sessionId f) \<longrightarrow> Some session_id = tf_sessionId f) \<and>
      (case tf_startTime f of None \<Rightarrow> True
       | Some lo \<Rightarrow> lo = [] \<or> lo \<le> datetime_text reading) \<and>
      (case tf_endTime f of None \<Rightarrow> True
       | Some hi \<Rightarrow> hi = [] \<or> datetime_text reading \<le> hi))"

definition tool_entry :: "tool_use_row \<Rightarrow> timeline_row" where
  "tool_entry t =
     \<lparr>tl_type = ''tool'', tl_id = t_id t, tl_session_id = t_session_id t,
      tl_agent_id = t_agent_id t, tl_name = t_tool_name t, tl_timestamp = t_started_at t,
      tl_status = Some (t_status t), tl_duration_ms = t_duration_ms t,
      tl_data = t_tool_input t\<rparr>"

definition event_entry :: "event_row \<Rightarrow> timeline_row" where
  "event_entry ev =
     \<lparr>tl_type = ''event'', tl_id = e_id ev, tl_session_id = e_session_id ev,
      tl_agent_id = e_agent_id ev, tl_name = e_event_type ev, tl_timestamp = e_timestamp ev,
      tl_status = None, tl_duration_ms = None, tl_data = e_event_data ev\<rparr>"

text \<open>The two \<^verbatim>\<open>SELECT\<close>s joined by \<^verbatim>\<open>UNION ALL\<close>.\<close>

definition timeline_union :: "timeline_filters \<Rightarrow> database \<Rightarrow> timeline_row list" where
  "timeline_union f d =
     map tool_entry (filter (\<lambda>t. timeline_where f (t_session_id t) (t_started_at t)) (tool_uses d)) @
     map event_entry (filter (\<lambda>ev. timeline_where f (e_session_id ev) (e_timestamp ev)) (events d))"

definition getTimeline :: "timeline_filters \<Rightarrow> database \<Rightarrow> timeline_row list" where
  "getTimeline f d =
     limit_offset (num_or (tf_limit f) 200) 0 (order_by_desc tl_timestamp (timeline_union f d))"

text \<open>A row of the timeline is identified by the table it comes from and its primary key
  there: the two tables number their rows independently.\<close>

definition timeline_key :: "timeline_row \<Rightarrow> string \<times> nat" where
  "timeline_key r = (tl_type r, tl_id r)"

text \<open>The specification's side of the timeline property: a reading lies within the time
  range of the filter when its stored text is not below the lower bound and not above
  the upper bound, for each bound that is given; and the keys of the tool uses and events
  of session \<open>s\<close> that lie within the time range.\<close>

definition within_time_range :: "timeline_filters \<Rightarrow> timestamp \<Rightarrow> bool" where
  "within_time_range f reading =
     ((\<forall>lo. tf_startTime f = Some lo \<and> lo \<noteq> [] \<longrightarrow> lo \<le> datetime_text reading) \<and>
      (\<forall>hi. tf_endTime f = Some hi \<and> hi \<noteq> [] \<longrightarrow> datetime_text reading \<le> hi))"

definition spec_timeline_keys :: "timeline_filters \<Rightarrow> string \<Rightarrow> database \<Rightarrow> (string \<times> nat) set" where
  "spec_timeline_keys f s d =
     {(''tool'', t_id t) |t. t \<in> set (tool_uses d) \<and> t_session_id t = s \<and>
        within_time_range f (t_started_at t)} \<union>
     {(''event'', e_id ev) |ev. ev \<in> set (events d) \<and> e_session_id ev = s \<and>
        within_time_range f (e_timestamp ev)}"

section \<open>The Context Store (lib/context.ts)\<close>

record agentarium_context =
  currentSessionId :: "string option"
  currentAgentId :: "string option"
  pendingToolUseId :: "nat option"
  agentStack :: "string list"

text \<open>What \<^verbatim>\<open>getContext\<close> returns when the file is absent or does not parse.\<close>

definition default_context :: agentarium_context where
  "default_context = \<lparr>currentSessionId = None, currentAgentId = None,
     pendingToolUseId = None, agentStack = []\<rparr>"

text \<open>
  What one hook process reads from its surroundings: the reading of the store's clock
  (one reading for the whole invocation), \<^verbatim>\<open>Date.now()\<close>, the digits that
  \<^verbatim>\<open>Math.random().toString(36).substring(2, 9)\<close> yields and
  \<^verbatim>\<open>new Date().toISOString()\<close>.
\<close>

record env =
  clock :: timestamp
  date_now :: nat
  random_part :: string
  iso_now :: string

fun dec :: "nat \<Rightarrow> string" where
  "dec n = (if n < 10 then [char_of (48 + n)] else dec (n div 10) @ [char_of (48 + n mod 10)])"

declare dec.simps [simp del]

definition generateId :: "env \<Rightarrow> string" where
  "generateId e = dec (date_now e) @ ''-'' @ random_part e"

section \<open>The hooks\<close>

text \<open>
  The state that outlives a hook process: the store file and the context file.
  \<^verbatim>\<open>updateContext\<close> reads the context file, assigns the given fields and writes it
  back; in the model it is a record update of \<open>ctx\<close>.
\<close>

record state =
  db :: database
  ctx :: agentarium_context

definition initial_state :: state where
  "initial_state = \<lparr>db = empty_db, ctx = default_context\<rparr>"

subsection \<open>hooks/session-start.ts\<close>

text \<open>The hook also creates the project metadata file when it is missing and clears its
  \<open>needs_restart\<close> flag; that file is read by none of the operations modelled here and
  is left out of the state. The git branch, the working directory and the other facts
  about the host are the argument \<open>data\<close>.\<close>

definition session_start :: "env \<Rightarrow> session_data \<Rightarrow> state \<Rightarrow> state" where
  "session_start e data st =
     (let d1 = cleanupStalePendingTools (clock e) (db st);
          sessionId = generateId e;
          d2 = createSession (clock e) sessionId data d1
      in \<lparr>db = d2,
          ctx = (ctx st)\<lparr>currentSessionId := Some sessionId, currentAgentId := None,
                         pendingToolUseId := None, agentStack := []\<rparr>\<rparr>)"

subsection \<open>hooks/pre-tool.ts\<close>

record pre_hook_data =
  ph_tool_name :: "string option"
  ph_tool_input :: "json option"

text \<open>Reading a property of a parsed value (\<^verbatim>\<open>taskInput?.name\<close>): a value that is not
  an object has none of the three properties that the hook reads; of a repeated key
  \<^verbatim>\<open>JSON.parse\<close> keeps the last value.\<close>

fun property :: "json option \<Rightarrow> string \<Rightarrow> json option" where
  "property (Some (JObj kvs)) k = map_of (rev kvs) k"
| "property _ k = None"

text \<open>\<^verbatim>\<open>taskInput?.subagent_type || "unknown"\<close>.\<close>

definition task_agent_type :: "json option \<Rightarrow> json" where
  "task_agent_type taskInput =
     (case json_or_null (property taskInput ''subagent_type'') of
        None \<Rightarrow> JStr ''unknown'' | Some ty \<Rightarrow> ty)"

text \<open>\<^verbatim>\<open>taskInput?.prompt?.substring(0, 100)\<close>: nothing for a prompt that is missing or
  null, the first hundred characters of a text, and a \<^verbatim>\<open>TypeError\<close> for any other
  value, which has no method \<^verbatim>\<open>substring\<close>.\<close>

fun prompt_substring :: "json option \<Rightarrow> db_error + json option" where
  "prompt_substring None = Inr None"
| "prompt_substring (Some JNull) = Inr None"
| "prompt_substring (Some (JStr p)) = Inr (Some (JStr (take 100 p)))"
| "prompt_substring (Some v) = Inl TypeError"

text \<open>\<^verbatim>\<open>taskInput?.description || taskInput?.prompt?.substring(0, 100)\<close>: the prompt is
  looked at only when the description is falsy.\<close>

definition task_description :: "json option \<Rightarrow> db_error + json option" where
  "task_description taskInput =
     (case json_or_null (property taskInput ''description'') of
        Some descr \<Rightarrow> Inr (Some descr)
      | None \<Rightarrow> prompt_substring (property taskInput ''prompt''))"

text \<open>
  The branch for the tool \<^verbatim>\<open>Task\<close>. \<open>c\<close> is the hook's local copy of the context, read
  once at the start: the push changes its \<open>agentStack\<close> only, and \<^verbatim>\<open>updateContext\<close>
  writes the new \<open>currentAgentId\<close> to the file, not to \<open>c\<close>. The argument of
  \<^verbatim>\<open>createAgent\<close> is built first; an exception there, or an insert that throws, ends the
  process before anything is written.
\<close>

definition spawn_agent :: "env \<Rightarrow> string \<Rightarrow> agentarium_context \<Rightarrow> json option \<Rightarrow> state
    \<Rightarrow> db_error + state" where
  "spawn_agent e sessionId c toolInput st =
     (let agentId = generateId e in
      case task_description toolInput of
        Inl err \<Rightarrow> Inl err
      | Inr description \<Rightarrow>
         (case createAgent (clock e)
                 \<lparr>ad_id = agentId, ad_sessionId = sessionId,
                  ad_parentAgentId = str_or_null (currentAgentId c),
                  ad_agentType = Some (task_agent_type toolInput),
                  ad_description = description\<rparr> (db st) of
            Inl err \<Rightarrow> Inl err
          | Inr d1 \<Rightarrow>
              Inr \<lparr>db = recordEvent (clock e)
                          \<lparr>ev_sessionId = sessionId, ev_agentId = Some agentId,
                           ev_eventType = ''agent_start'',
                           ev_eventData = Some (JObj (case toolInput of None \<Rightarrow> []
                                                      | Some v \<Rightarrow> [(''toolInput'', v)]))\<rparr> d1,
                   ctx = (ctx st)\<lparr>currentAgentId := Some agentId,
                                  agentStack := agentStack c @ [agentId]\<rparr>\<rparr>))"

text \<open>The inputs of a \<^verbatim>\<open>Task\<close> call on which the branch throws a \<^verbatim>\<open>TypeError\<close>: the
  description is falsy and the prompt is neither missing, null nor a text; or the agent
  type or the description to bind is an array or an object.\<close>

definition task_input_throws :: "json option \<Rightarrow> bool" where
  "task_input_throws toolInput =
     (case task_description toolInput of
        Inl err \<Rightarrow> True
      | Inr description \<Rightarrow>
          \<not> bindable (Some (task_agent_type toolInput)) \<or>
          \<not> bindable (json_or_null description))"

text \<open>
  \<^verbatim>\<open>Number(toolUseId)\<close>: the floating-point number nearest to the row id (a tie goes
  to the even one), which is the row id itself up to \<open>2 ^ 53\<close>. Row ids of the store are
  below \<open>2 ^ 63\<close>.
\<close>

fun bit_length :: "nat \<Rightarrow> nat" where
  "bit_length n = (if n = 0 then 0 else Suc (bit_length (n div 2)))"

declare bit_length.simps [simp del]

definition js_Number :: "nat \<Rightarrow> nat" where
  "js_Number i =
     (if i \<le> 2 ^ 53 then i
      else let k = bit_length i - 53;
               q = i div 2 ^ k;
               r = i mod 2 ^ k;
               half = 2 ^ (k - 1)
           in (if half < r \<or> (r = half \<and> odd q) then q + 1 else q) * 2 ^ k)"

text \<open>The tool use is recorded with \<^verbatim>\<open>ctx.currentAgentId\<close> of the local copy \<open>c\<close>.\<close>

definition record_tool_use :: "env \<Rightarrow> string \<Rightarrow> agentarium_context \<Rightarrow> string \<Rightarrow> json option
    \<Rightarrow> state \<Rightarrow> state" where
  "record_tool_use e sessionId c toolName toolInput st =
     (let (toolUseId, d1) = recordToolStart (clock e)
            \<lparr>ts_sessionId = sessionId, ts_agentId = str_or_null (currentAgentId c),
             ts_toolName = toolName, ts_toolInput = toolInput\<rparr> (db st)
      in \<lparr>db = d1, ctx = (ctx st)\<lparr>pendingToolUseId := Some (js_Number toolUseId)\<rparr>\<rparr>)"

text \<open>\<^verbatim>\<open>hookData?.tool_name || "unknown"\<close> and \<^verbatim>\<open>hookData?.tool_input\<close>; \<open>None\<close> is the
  input that did not parse.\<close>

definition hook_tool_name :: "pre_hook_data option \<Rightarrow> string" where
  "hook_tool_name hookData =
     (case hookData of
        None \<Rightarrow> ''unknown''
      | Some h \<Rightarrow> (case str_or_null (ph_tool_name h) of None \<Rightarrow> ''unknown'' | Some n \<Rightarrow> n))"

definition hook_tool_input :: "pre_hook_data option \<Rightarrow> json option" where
  "hook_tool_input hookData = (case hookData of None \<Rightarrow> None | Some h \<Rightarrow> ph_tool_input h)"

definition pre_tool :: "env \<Rightarrow> pre_hook_data option \<Rightarrow> state \<Rightarrow> db_error + state" where
  "pre_tool e hookData st =
     (let c = ctx st in
      case str_or_null (currentSessionId c) of
        None \<Rightarrow> Inr st
      | Some sessionId \<Rightarrow>
          let toolName = hook_tool_name hookData;
              toolInput = hook_tool_input hookData
          in if toolName = ''Task''
             then (case spawn_agent e sessionId c toolInput st of
                     Inl err \<Rightarrow> Inl err
                   | Inr st1 \<Rightarrow> Inr (record_tool_use e sessionId c toolName toolInput st1))
             else Inr (record_tool_use e sessionId c toolName toolInput st))"

subsection \<open>hooks/post-tool.ts\<close>

record post_hook_data =
  po_tool_output :: "json option"
  po_error :: "string option"

text \<open>\<^verbatim>\<open>String.prototype.includes\<close>.\<close>

fun str_includes :: "string \<Rightarrow> string \<Rightarrow> bool" where
  "str_includes [] needle = (needle = [])"
| "str_includes (c # cs) needle = (prefix needle (c # cs) \<or> str_includes cs needle)"

definition hasError :: "post_hook_data option \<Rightarrow> bool" where
  "hasError hookData =
     (case hookData of
        None \<Rightarrow> False
      | Some h \<Rightarrow> str_given (po_error h) \<or>
          (case po_tool_output h of Some (JStr out) \<Rightarrow> str_includes out ''error'' | _ \<Rightarrow> False))"

text \<open>The test \<^verbatim>\<open>if (ctx.pendingToolUseId)\<close>: the number 0 is falsy.\<close>

definition post_tool :: "env \<Rightarrow> post_hook_data option \<Rightarrow> state \<Rightarrow> state" where
  "post_tool e hookData st =
     (case pendingToolUseId (ctx st) of
        None \<Rightarrow> st
      | Some i \<Rightarrow>
          if i = 0 then st
          else \<lparr>db = recordToolEnd (clock e) i
                      \<lparr>te_output = (case hookData of None \<Rightarrow> None | Some h \<Rightarrow> po_tool_output h),
                       te_status = (if hasError hookData then Error else Success),
                       te_error = (case hookData of None \<Rightarrow> None | Some h \<Rightarrow> po_error h)\<rparr>
                      (db st),
                ctx = (ctx st)\<lparr>pendingToolUseId := None\<rparr>\<rparr>)"

subsection \<open>hooks/subagent-stop.ts\<close>

definition subagent_stop :: "env \<Rightarrow> json option \<Rightarrow> state \<Rightarrow> state" where
  "subagent_stop e result st =
     (let c = ctx st in
      case str_or_null (currentSessionId c) of
        None \<Rightarrow> st
      | Some sessionId \<Rightarrow>
          if agentStack c = [] then st
          else
            let completedAgentId = last (agentStack c);
                stack = butlast (agentStack c);
                d1 = endAgent (clock e) completedAgentId Completed (db st);
                d2 = recordEvent (clock e)
                       \<lparr>ev_sessionId = sessionId, ev_agentId = Some completedAgentId,
                        ev_eventType = ''agent_complete'',
                        ev_eventData = Some (JObj
                          ((case result of None \<Rightarrow> [] | Some r \<Rightarrow> [(''result'', r)]) @
                           [(''timestamp'', JStr (iso_now e))]))\<rparr> d1
            in \<lparr>db = d2,
                ctx = (ctx st)\<lparr>currentAgentId := (if stack \<noteq> [] then Some (last stack) else None),
                               agentStack := stack\<rparr>\<rparr>)"

subsection \<open>hooks/stop.ts\<close>

definition stop :: "env \<Rightarrow> string option \<Rightarrow> state \<Rightarrow> state" where
  "stop e stop_reason st =
     (let c = ctx st in
      case str_or_null (currentSessionId c) of
        None \<Rightarrow> st
      | Some sessionId \<Rightarrow>
          st\<lparr>db := recordEvent (clock e)
                \<lparr>ev_sessionId = sessionId, ev_agentId = str_or_null (currentAgentId c),
                 ev_eventType = ''turn_complete'',
                 ev_eventData = Some (JObj
                   ((case stop_reason of None \<Rightarrow> [] | Some r \<Rightarrow> [(''stopReason'', JStr r)]) @
                    [(''timestamp'', JStr (iso_now e))]))\<rparr> (db st)\<rparr>)"

subsection \<open>hooks/session-end.ts\<close>

definition session_end :: "env \<Rightarrow> state \<Rightarrow> state" where
  "session_end e st =
     (let c = ctx st;
          d1 = (case str_or_null (currentSessionId c) of
                  None \<Rightarrow> db st
                | Some sessionId \<Rightarrow>
                    endSession (clock e) sessionId
                      (recordEvent (clock e)
                         \<lparr>ev_sessionId = sessionId, ev_agentId = None,
                          ev_eventType = ''session_end'',
                          ev_eventData = Some (JObj [(''endedAt'', JStr (iso_now e))])\<rparr>
                         (markPendingToolsInterrupted (clock e) sessionId (db st))))
      in \<lparr>db = d1,
          ctx = (ctx st)\<lparr>currentSessionId := None, currentAgentId := None,
                         pendingToolUseId := None, agentStack := []\<rparr>\<rparr>)"

subsection \<open>Sequences of hook invocations\<close>

datatype hook =
    SessionStart env session_data
  | PreToolUse env "pre_hook_data option"
  | PostToolUse env "post_hook_data option"
  | SubagentStop env "json option"
  | Stop env "string option"
  | SessionEnd env

text \<open>One hook process. A pre-tool hook that ends with an uncaught exception has written
  nothing, so it leaves the state as it was.\<close>

fun step :: "hook \<Rightarrow> state \<Rightarrow> state" where
  "step (SessionStart e data) st = session_start e data st"
| "step (PreToolUse e hookData) st = (case pre_tool e hookData st of Inl err \<Rightarrow> st | Inr st' \<Rightarrow> st')"
| "step (PostToolUse e hookData) st = post_tool e hookData st"
| "step (SubagentStop e result) st = subagent_stop e result st"
| "step (Stop e stop_reason) st = stop e stop_reason st"
| "step (SessionEnd e) st = session_end e st"

text \<open>The hooks that the host runs between the start and the end of a session.\<close>

fun in_session :: "hook \<Rightarrow> bool" where
  "in_session (SessionStart e data) = False"
| "in_session (SessionEnd e) = False"
| "in_session h = True"

definition run :: "hook list \<Rightarrow> state \<Rightarrow> state" where
  "run hs st = fold step hs st"

definition reachable :: "state \<Rightarrow> bool" where
  "reachable st = (\<exists>hs. st = run hs initial_state)"

section \<open>The guarded raw query of the control plane (mcp/server.ts)\<close>

text \<open>
  A \<open>string\<close> is a list of 8-bit characters: the model covers the texts whose code units
  are below 256. There \<^verbatim>\<open>trim\<close> removes tab, line feed, vertical tab, form feed,
  carriage return, space and no-break space from both ends, and \<^verbatim>\<open>toLowerCase\<close> maps
  the capital letters of ASCII and of Latin-1.
\<close>

definition js_whitespace :: "char \<Rightarrow> bool" where
  "js_whitespace c = (let n = (of_char c :: nat) in (9 \<le> n \<and> n \<le> 13) \<or> n = 32 \<or> n = 160)"

definition trim :: "string \<Rightarrow> string" where
  "trim s = rev (dropWhile js_whitespace (rev (dropWhile js_whitespace s)))"

definition lower_char :: "char \<Rightarrow> char" where
  "lower_char c =
     (let n = (of_char c :: nat)
      in if (65 \<le> n \<and> n \<le> 90) \<or> (192 \<le> n \<and> n \<le> 222 \<and> n \<noteq> 215)
         then char_of (n + 32) else c)"

definition toLowerCase :: "string \<Rightarrow> string" where
  "toLowerCase s = map lower_char s"

definition startsWith :: "string \<Rightarrow> string \<Rightarrow> bool" where
  "startsWith s p = prefix p s"

text \<open>
  The storage engine that runs an SQL text is outside the repository: it is the
  parameter \<open>engine\<close>, which returns the rows or the message of the exception it throws,
  and the store it leaves. The handler throws before it opens the store when the guard
  fails.
\<close>

definition agentarium_query_db ::
    "(string \<Rightarrow> database \<Rightarrow> (string + 'rows) \<times> database) \<Rightarrow> string \<Rightarrow> database
      \<Rightarrow> (string + 'rows) \<times> database" where
  "agentarium_query_db engine q d =
     (let query = toLowerCase (trim q) in
      if \<not> startsWith query ''select'' then (Inl ''Only SELECT queries are allowed'', d)
      else engine q d)"

text \<open>The answer of \<^verbatim>\<open>handleRequest\<close> to \<^verbatim>\<open>tools/call\<close>: the result of the handler, or
  the message of what it threw under the code of an internal error.\<close>

datatype 'rows rpc_response =
    RpcResult 'rows
  | RpcError int string

definition handleRequest_query ::
    "(string \<Rightarrow> database \<Rightarrow> (string + 'rows) \<times> database) \<Rightarrow> string \<Rightarrow> database
      \<Rightarrow> 'rows rpc_response \<times> database" where
  "handleRequest_query engine q d =
     (case agentarium_query_db engine q d of
        (Inl message, d') \<Rightarrow> (RpcError (- 32603) message, d')
      | (Inr rows, d') \<Rightarrow> (RpcResult rows, d'))"

section \<open>Invariants of the reachable states\<close>

text \<open>No agent row is interrupted, and a row is running exactly when it has no
  \<open>ended_at\<close>.\<close>

definition agent_status_ok :: "state \<Rightarrow> bool" where
  "agent_status_ok st = (\<forall>a \<in> set (agents (db st)).
      a_status a \<noteq> AgentInterrupted \<and> (a_status a = Running \<longleftrightarrow> a_ended_at a = None))"

text \<open>
  Following \<open>parent_agent_id\<close>: the parent link of the agent row with a given id, and the
  number of links to follow from an agent until the link is null (the agent's own link
  included), searched with as many steps as there are rows. \<open>None\<close> means that null is
  not reached: a link to a missing row, or a cycle.
\<close>

definition parent_of :: "agent_row list \<Rightarrow> string \<Rightarrow> string option option" where
  "parent_of rows = map_of (map (\<lambda>a. (a_id a, a_parent_agent_id a)) rows)"

fun steps_to_root :: "nat \<Rightarrow> agent_row list \<Rightarrow> string \<Rightarrow> nat option" where
  "steps_to_root 0 rows i = None"
| "steps_to_root (Suc fuel) rows i =
     (case parent_of rows i of
        None \<Rightarrow> None
      | Some None \<Rightarrow> Some 1
      | Some (Some p) \<Rightarrow> map_option Suc (steps_to_root fuel rows p))"

definition depth :: "agent_row list \<Rightarrow> string \<Rightarrow> nat option" where
  "depth rows i = steps_to_root (length rows) rows i"

text \<open>
  The invariant of the agent forest: agent ids are distinct and non-empty; a parent link
  names a row inserted earlier, of the same session; the current agent is the top of the
  stack; and every entry of the stack is an agent of the current session whose parent link
  is the entry below it (null for the bottom entry).
\<close>

definition agent_forest_ok :: "state \<Rightarrow> bool" where
  "agent_forest_ok st =
     (let rows = agents (db st); c = ctx st in
      distinct (map a_id rows) \<and>
      (\<forall>a \<in> set rows. a_id a \<noteq> []) \<and>
      (\<forall>i < length rows. \<forall>p. a_parent_agent_id (rows ! i) = Some p \<longrightarrow>
         (\<exists>j < i. a_id (rows ! j) = p \<and> a_session_id (rows ! j) = a_session_id (rows ! i))) \<and>
      currentAgentId c = (if agentStack c = [] then None else Some (last (agentStack c))) \<and>
      (\<forall>k < length (agentStack c). \<exists>a \<in> set rows.
         a_id a = agentStack c ! k \<and> Some (a_session_id a) = currentSessionId c \<and>
         a_parent_agent_id a = (if k = 0 then None else Some (agentStack c ! (k - 1)))))"

text \<open>
  The order of hook invocations that the correlator assumes, as far as sessions go: a
  session start comes only when no session is open (\<open>opened\<close> tells whether one is).
\<close>

fun sessions_alternate :: "bool \<Rightarrow> hook list \<Rightarrow> bool" where
  "sessions_alternate opened [] = True"
| "sessions_alternate opened (SessionStart e data # hs) = (\<not> opened \<and> sessions_alternate True hs)"
| "sessions_alternate opened (SessionEnd e # hs) = sessions_alternate False hs"
| "sessions_alternate opened (h # hs) = sessions_alternate opened hs"

definition open_sessions :: "database \<Rightarrow> session_row list" where
  "open_sessions d = filter (\<lambda>s. s_ended_at s = None) (sessions d)"

text \<open>Session ids are distinct and non-empty, and an open session row is the session
  that the context names, inside a session.\<close>

definition session_inv :: "bool \<Rightarrow> state \<Rightarrow> bool" where
  "session_inv opened st =
     (distinct (map s_id (sessions (db st))) \<and>
      (\<forall>s \<in> set (sessions (db st)). s_id s \<noteq> []) \<and>
      (\<forall>s \<in> set (open_sessions (db st)).
         opened \<and> currentSessionId (ctx st) = Some (s_id s)))"

section \<open>Example states\<close>

text \<open>A store with an ended session \<open>1-a\<close> and an open session \<open>2-b\<close>.\<close>

definition example_store :: database where
  "example_store =
     \<lparr>sessions = [\<lparr>s_id = ''1-a'', s_started_at = 9400, s_ended_at = Some 9600,
                   s_project_root = None, s_working_directory = None, s_model = None,
                   s_git_branch = None, s_metadata = None\<rparr>,
                  \<lparr>s_id = ''2-b'', s_started_at = 9000, s_ended_at = None,
                   s_project_root = None, s_working_directory = None, s_model = None,
                   s_git_branch = None, s_metadata = None\<rparr>],
      agents = [\<lparr>a_id = ''3-c'', a_session_id = ''1-a'', a_parent_agent_id = None,
                 a_agent_type = Some (JStr ''reviewer''), a_description = None, a_started_at = 9500,
                 a_ended_at = None, a_status = Running\<rparr>,
                \<lparr>a_id = ''4-d'', a_session_id = ''2-b'', a_parent_agent_id = None,
                 a_agent_type = Some (JStr ''unknown''), a_description = None, a_started_at = 9991,
                 a_ended_at = None, a_status = Running\<rparr>],
      tool_uses = [\<lparr>t_id = 1, t_session_id = ''1-a'', t_agent_id = None, t_tool_name = ''Read'',
                    t_tool_input = None, t_tool_output = None, t_started_at = 9500,
                    t_ended_at = None, t_duration_ms = None, t_status = Pending, t_error = None\<rparr>,
                   \<lparr>t_id = 2, t_session_id = ''2-b'', t_agent_id = None, t_tool_name = ''Bash'',
                    t_tool_input = None, t_tool_output = None, t_started_at = 9001,
                    t_ended_at = None, t_duration_ms = None, t_status = Pending, t_error = None\<rparr>,
                   \<lparr>t_id = 3, t_session_id = ''2-b'', t_agent_id = None, t_tool_name = ''Task'',
                    t_tool_input = None, t_tool_output = None, t_started_at = 9990,
                    t_ended_at = None, t_duration_ms = None, t_status = Pending, t_error = None\<rparr>],
      events = [\<lparr>e_id = 1, e_session_id = ''1-a'', e_agent_id = None,
                 e_event_type = ''session_end'', e_event_data = None, e_timestamp = 9600\<rparr>,
                \<lparr>e_id = 2, e_session_id = ''2-b'', e_agent_id = Some ''4-d'',
                 e_event_type = ''agent_start'', e_event_data = None, e_timestamp = 9991\<rparr>,
                \<lparr>e_id = 3, e_session_id = ''2-b'', e_agent_id = Some ''4-d'',
                 e_event_type = ''turn_complete'', e_event_data = None, e_timestamp = 9995\<rparr>],
      tool_seq = 3, event_seq = 3\<rparr>"

text \<open>A store with one session and 201 events of it, one second apart.\<close>

definition many_events :: database where
  "many_events = empty_db
     \<lparr>sessions := [\<lparr>s_id = ''2-b'', s_started_at = 9000, s_ended_at = None,
                    s_project_root = None, s_working_directory = None, s_model = None,
                    s_git_branch = None, s_metadata = None\<rparr>],
      events := map (\<lambda>i. \<lparr>e_id = i, e_session_id = ''2-b'', e_agent_id = None,
                            e_event_type = ''turn_complete'', e_event_data = None,
                            e_timestamp = 9000 + int i\<rparr>) [1 ..< 202],
      event_seq := 201\<rparr>"

text \<open>The filters of a timeline query that names only a session, with and without a
  limit and a lower bound.\<close>

definition session_2b :: timeline_filters where
  "session_2b = \<lparr>tf_sessionId = Some ''2-b'', tf_startTime = None, tf_endTime = None,
     tf_limit = None\<rparr>"

definition session_2b_newest_two :: timeline_filters where
  "session_2b_newest_two = session_2b\<lparr>tf_limit := Some 2\<rparr>"

definition session_2b_since :: timeline_filters where
  "session_2b_since = session_2b\<lparr>tf_startTime := Some ''1970-01-01 02:46:30''\<rparr>"

definition session_2b_since_iso :: timeline_filters where
  "session_2b_since_iso = session_2b\<lparr>tf_startTime := Some ''1970-01-01T00:00:00.000Z''\<rparr>"

text \<open>A stand-in for the storage engine, which answers every query with the number of
  session rows.\<close>

definition example_engine :: "string \<Rightarrow> database \<Rightarrow> (string + nat) \<times> database" where
  "example_engine q d = (Inr (length (sessions d)), d)"

text \<open>The context of a hook process that runs inside session \<open>2-b\<close>, below agent
  \<open>4-d\<close>, after the pre-tool hook of tool use 3.\<close>

definition example_state :: state where
  "example_state = \<lparr>db = example_store,
     ctx = \<lparr>currentSessionId = Some ''2-b'', currentAgentId = Some ''4-d'',
            pendingToolUseId = Some 3, agentStack = [''4-d'']\<rparr>\<rparr>"

text \<open>Surroundings of five hook processes, one minute apart.\<close>

definition env1 :: env where
  "env1 = \<lparr>clock = 10000, date_now = 5, random_part = ''e'', iso_now = ''T1''\<rparr>"

definition env2 :: env where
  "env2 = \<lparr>clock = 10060, date_now = 6, random_part = ''f'', iso_now = ''T2''\<rparr>"

definition env3 :: env where
  "env3 = \<lparr>clock = 10120, date_now = 7, random_part = ''g'', iso_now = ''T3''\<rparr>"

definition env4 :: env where
  "env4 = \<lparr>clock = 10180, date_now = 8, random_part = ''h'', iso_now = ''T4''\<rparr>"

definition env5 :: env where
  "env5 = \<lparr>clock = 10240, date_now = 9, random_part = ''i'', iso_now = ''T5''\<rparr>"

definition no_session_data :: session_data where
  "no_session_data = \<lparr>sd_projectRoot = None, sd_workingDirectory = None, sd_model = None,
     sd_gitBranch = None, sd_metadata = None\<rparr>"

definition task_call :: "pre_hook_data option" where
  "task_call = Some \<lparr>ph_tool_name = Some ''Task'',
     ph_tool_input = Some (JObj [(''subagent_type'', JStr ''reviewer''),
                                 (''description'', JStr ''check x'')])\<rparr>"

text \<open>A \<^verbatim>\<open>Task\<close> call whose prompt is a number and which has no description.\<close>

definition number_prompt_call :: "pre_hook_data option" where
  "number_prompt_call = Some \<lparr>ph_tool_name = Some ''Task'',
     ph_tool_input = Some (JObj [(''prompt'', JNum 123)])\<rparr>"

definition read_call :: "pre_hook_data option" where
  "read_call = Some \<lparr>ph_tool_name = Some ''Read'',
     ph_tool_input = Some (JObj [(''path'', JStr ''a.txt'')])\<rparr>"

text \<open>A session in which an agent is spawned and stops.\<close>

definition spawn_and_stop :: "hook list" where
  "spawn_and_stop = [SessionStart env1 no_session_data, PreToolUse env2 task_call,
     PostToolUse env3 None, SubagentStop env4 None]"

text \<open>Post-tool inputs: one whose \<open>error\<close> field is present and empty, one with an error
  message.\<close>

definition empty_error_result :: post_hook_data where
  "empty_error_result = \<lparr>po_tool_output = Some (JStr ''ok''), po_error = Some []\<rparr>"

definition failed_result :: post_hook_data where
  "failed_result = \<lparr>po_tool_output = Some (JStr ''ok''), po_error = Some ''boom''\<rparr>"

text \<open>The state inside a session after one agent has been spawned.\<close>

definition one_agent_state :: state where
  "one_agent_state = run [SessionStart env1 no_session_data, PreToolUse env2 task_call]
     initial_state"

text \<open>Two session starts with no session end between them, and a session that is ended
  before the next one starts.\<close>

definition two_starts :: "hook list" where
  "two_starts = [SessionStart env1 no_session_data, SessionStart env2 no_session_data]"

definition two_sessions :: "hook list" where
  "two_sessions = [SessionStart env1 no_session_data, PreToolUse env2 read_call,
     SessionEnd env3, SessionStart env4 no_session_data]"


section \<open>Ordering and paging of query results\<close>

lemma set_order_by_desc [simp]: "set (order_by_desc k rows) = set rows"
  by (simp add: order_by_desc_def)

lemma length_order_by_desc [simp]: "length (order_by_desc k rows) = length rows"
  by (simp add: order_by_desc_def)

lemma mset_order_by_desc [simp]: "mset (order_by_desc k rows) = mset rows"
  by (simp add: order_by_desc_def)

lemma sorted_order_by_desc: "sorted_wrt (\<lambda>a b. k b \<le> k a) (order_by_desc k rows)"
proof -
  have "sorted (map (\<lambda>r. - k r) (sort_key (\<lambda>r. - k r) rows))"
    by (rule sorted_sort_key)
  then show ?thesis
    by (simp add: order_by_desc_def sorted_wrt_map)
qed

lemma distinct_map_order_by_desc:
  "distinct (map g (order_by_desc k rows)) = distinct (map g rows)"
proof -
  have "mset (map g (order_by_desc k rows)) = mset (map g rows)"
    by simp
  then show ?thesis
    by (rule mset_eq_imp_distinct_iff)
qed

lemma set_limit_offset: "set (limit_offset l off rows) \<subseteq> set rows"
  by (auto simp: limit_offset_def Let_def dest: in_set_takeD in_set_dropD)

lemma limit_offset_Nil [simp]: "limit_offset l off [] = []"
  by (simp add: limit_offset_def)

lemma limit_offset_zero: "limit_offset l 0 rows = (if l < 0 then rows else take (nat l) rows)"
  by (simp add: limit_offset_def)

lemma sorted_wrt_limit_offset:
  "sorted_wrt R rows \<Longrightarrow> sorted_wrt R (limit_offset l off rows)"
  by (simp add: limit_offset_def Let_def sorted_wrt_take sorted_wrt_drop)

lemma distinct_map_limit_offset:
  "distinct (map g rows) \<Longrightarrow> distinct (map g (limit_offset l off rows))"
  by (simp add: limit_offset_def Let_def take_map [symmetric] drop_map [symmetric]
      distinct_take distinct_drop del: take_map drop_map)

section \<open>Effects of the store operations and of the hooks\<close>

lemma str_or_null_Some [simp]: "str_or_null x = Some s \<longleftrightarrow> x = Some s \<and> s \<noteq> []"
  by (auto simp: str_or_null_def split: option.splits)

lemma str_or_null_None: "str_or_null x = None \<longleftrightarrow> x = None \<or> x = Some []"
  by (auto simp: str_or_null_def split: option.splits)

lemma str_or_null_idem [simp]: "str_or_null (str_or_null x) = str_or_null x"
  by (auto simp: str_or_null_def split: option.splits)

lemma str_or_null_nonempty [simp]: "s \<noteq> [] \<Longrightarrow> str_or_null (Some s) = Some s"
  by (simp add: str_or_null_def)

lemma generateId_nonempty [simp]: "generateId e \<noteq> []"
  by (simp add: generateId_def)

lemma str_or_null_generateId [simp]: "str_or_null (Some (generateId e)) = Some (generateId e)"
  by (simp add: str_or_null_def)

lemma interrupt_row_status [simp]: "t_status (interrupt_row now msg t) = Interrupted"
  by (simp add: interrupt_row_def)

lemma ended_session_ids_tool_uses [simp]:
  "ended_session_ids (d\<lparr>tool_uses := ts\<rparr>) = ended_session_ids d"
  by (simp add: ended_session_ids_def)

lemma cleanup_sessions [simp]: "sessions (cleanupStalePendingTools now d) = sessions d"
  by (simp add: cleanupStalePendingTools_def Let_def)

lemma cleanup_tables [simp]:
  "agents (cleanupStalePendingTools now d) = agents d"
  "events (cleanupStalePendingTools now d) = events d"
  "tool_seq (cleanupStalePendingTools now d) = tool_seq d"
  "event_seq (cleanupStalePendingTools now d) = event_seq d"
  by (simp_all add: cleanupStalePendingTools_def Let_def)

lemma createSession_tables [simp]:
  "agents (createSession now sid data d) = agents d"
  "tool_uses (createSession now sid data d) = tool_uses d"
  "events (createSession now sid data d) = events d"
  "tool_seq (createSession now sid data d) = tool_seq d"
  "event_seq (createSession now sid data d) = event_seq d"
  by (simp_all add: createSession_def)

lemma endSession_tables [simp]:
  "agents (endSession now sid d) = agents d"
  "tool_uses (endSession now sid d) = tool_uses d"
  "events (endSession now sid d) = events d"
  "tool_seq (endSession now sid d) = tool_seq d"
  "event_seq (endSession now sid d) = event_seq d"
  by (simp_all add: endSession_def)

lemma recordEvent_tables [simp]:
  "agents (recordEvent now data d) = agents d"
  "tool_uses (recordEvent now data d) = tool_uses d"
  "sessions (recordEvent now data d) = sessions d"
  "tool_seq (recordEvent now data d) = tool_seq d"
  by (simp_all add: recordEvent_def Let_def)

lemma recordToolEnd_tables [simp]:
  "agents (recordToolEnd now i data d) = agents d"
  "events (recordToolEnd now i data d) = events d"
  "sessions (recordToolEnd now i data d) = sessions d"
  "tool_seq (recordToolEnd now i data d) = tool_seq d"
  "event_seq (recordToolEnd now i data d) = event_seq d"
  by (simp_all add: recordToolEnd_def)

lemma markPending_tables [simp]:
  "agents (markPendingToolsInterrupted now sid d) = agents d"
  "events (markPendingToolsInterrupted now sid d) = events d"
  "sessions (markPendingToolsInterrupted now sid d) = sessions d"
  "tool_seq (markPendingToolsInterrupted now sid d) = tool_seq d"
  "event_seq (markPendingToolsInterrupted now sid d) = event_seq d"
  by (simp_all add: markPendingToolsInterrupted_def)

lemma endAgent_tables [simp]:
  "tool_uses (endAgent now i status d) = tool_uses d"
  "events (endAgent now i status d) = events d"
  "sessions (endAgent now i status d) = sessions d"
  "tool_seq (endAgent now i status d) = tool_seq d"
  "event_seq (endAgent now i status d) = event_seq d"
  by (simp_all add: endAgent_def)

lemma recordToolStart_tables [simp]:
  "agents (snd (recordToolStart now data d)) = agents d"
  "events (snd (recordToolStart now data d)) = events d"
  "sessions (snd (recordToolStart now data d)) = sessions d"
  "event_seq (snd (recordToolStart now data d)) = event_seq d"
  "fst (recordToolStart now data d) = Suc (tool_seq d)"
  "tool_seq (snd (recordToolStart now data d)) = Suc (tool_seq d)"
  by (simp_all add: recordToolStart_def Let_def)

lemma createAgent_Inr:
  "createAgent now data d = Inr d' \<longleftrightarrow>
     bindable (json_or_null (ad_agentType data)) \<and>
     bindable (json_or_null (ad_description data)) \<and>
     ad_id data \<notin> a_id ` set (agents d) \<and>
     d' = d\<lparr>agents := agents d @
        [\<lparr>a_id = ad_id data, a_session_id = ad_sessionId data,
          a_parent_agent_id = str_or_null (ad_parentAgentId data),
          a_agent_type = json_or_null (ad_agentType data),
          a_description = json_or_null (ad_description data),
          a_started_at = now, a_ended_at = None, a_status = Running\<rparr>]\<rparr>"
  by (auto simp: createAgent_def)

lemma createAgent_Inl:
  "createAgent now data d = Inl err \<longleftrightarrow>
     (if \<not> bindable (json_or_null (ad_agentType data)) \<or>
         \<not> bindable (json_or_null (ad_description data)) then err = TypeError
      else ad_id data \<in> a_id ` set (agents d) \<and> err = ConstraintError)"
  by (auto simp: createAgent_def)

lemma js_Number_small [simp]: "i \<le> 2 ^ 53 \<Longrightarrow> js_Number i = i"
  by (simp add: js_Number_def)

lemma prompt_substring_Inl: "prompt_substring v = Inl err \<Longrightarrow> err = TypeError"
  by (cases v rule: prompt_substring.cases) simp_all

lemma task_description_Inl: "task_description inp = Inl err \<Longrightarrow> err = TypeError"
  by (auto simp: task_description_def split: option.splits dest: prompt_substring_Inl)

lemma truthy_task_agent_type [simp]:
  "json_or_null (Some (task_agent_type inp)) = Some (task_agent_type inp)"
  by (auto simp: task_agent_type_def json_or_null_def split: option.splits if_splits)

text \<open>The context after each hook.\<close>

lemma record_tool_use_ctx [simp]:
  "ctx (record_tool_use e sid c name inp st)
     = (ctx st)\<lparr>pendingToolUseId := Some (js_Number (Suc (tool_seq (db st))))\<rparr>"
  by (simp add: record_tool_use_def recordToolStart_def Let_def)

lemma record_tool_use_db:
  "db (record_tool_use e sid c name inp st) =
     snd (recordToolStart (clock e)
            \<lparr>ts_sessionId = sid, ts_agentId = str_or_null (currentAgentId c),
             ts_toolName = name, ts_toolInput = inp\<rparr> (db st))"
  by (simp add: record_tool_use_def split_def Let_def)

lemma record_tool_use_tables [simp]:
  "agents (db (record_tool_use e sid c name inp st)) = agents (db st)"
  "events (db (record_tool_use e sid c name inp st)) = events (db st)"
  "sessions (db (record_tool_use e sid c name inp st)) = sessions (db st)"
  "tool_seq (db (record_tool_use e sid c name inp st)) = Suc (tool_seq (db st))"
  by (simp_all add: record_tool_use_db)

lemma spawn_agent_Inr:
  "spawn_agent e sid c inp st = Inr st1 \<longleftrightarrow>
     \<not> task_input_throws inp \<and>
     generateId e \<notin> a_id ` set (agents (db st)) \<and>
     st1 = \<lparr>db = recordEvent (clock e)
               \<lparr>ev_sessionId = sid, ev_agentId = Some (generateId e),
                ev_eventType = ''agent_start'',
                ev_eventData = Some (JObj (case inp of None \<Rightarrow> [] | Some v \<Rightarrow> [(''toolInput'', v)]))\<rparr>
               ((db st)\<lparr>agents := agents (db st) @
                  [\<lparr>a_id = generateId e, a_session_id = sid,
                    a_parent_agent_id = str_or_null (currentAgentId c),
                    a_agent_type = Some (task_agent_type inp),
                    a_description = (case task_description inp of
                                       Inl err \<Rightarrow> None | Inr descr \<Rightarrow> json_or_null descr),
                    a_started_at = clock e, a_ended_at = None, a_status = Running\<rparr>]\<rparr>),
            ctx = (ctx st)\<lparr>currentAgentId := Some (generateId e),
                           agentStack := agentStack c @ [generateId e]\<rparr>\<rparr>"
proof (cases "task_description inp")
  case (Inl err)
  then show ?thesis
    by (simp add: spawn_agent_def task_input_throws_def)
next
  case (Inr descr)
  then show ?thesis
    by (auto simp: spawn_agent_def Let_def createAgent_def task_input_throws_def
        simp del: str_or_null_Some)
qed

lemma spawn_agent_Inl:
  "spawn_agent e sid c inp st = Inl err \<longleftrightarrow>
     (if task_input_throws inp then err = TypeError
      else generateId e \<in> a_id ` set (agents (db st)) \<and> err = ConstraintError)"
proof (cases "task_description inp")
  case (Inl err')
  then have "err' = TypeError" by (rule task_description_Inl)
  with Inl show ?thesis
    by (auto simp: spawn_agent_def task_input_throws_def)
next
  case (Inr descr)
  then show ?thesis
    by (auto simp: spawn_agent_def Let_def createAgent_def task_input_throws_def)
qed

text \<open>The four ways a pre-tool hook can go.\<close>

lemma pre_tool_cases:
  obtains
    (no_session) "str_or_null (currentSessionId (ctx st)) = None"
      and "pre_tool e hookData st = Inr st"
  | (plain) sid where "currentSessionId (ctx st) = Some sid" and "sid \<noteq> []"
      and "hook_tool_name hookData \<noteq> ''Task''"
      and "pre_tool e hookData st
           = Inr (record_tool_use e sid (ctx st) (hook_tool_name hookData)
                    (hook_tool_input hookData) st)"
  | (refused) sid err where "currentSessionId (ctx st) = Some sid" and "sid \<noteq> []"
      and "hook_tool_name hookData = ''Task''"
      and "spawn_agent e sid (ctx st) (hook_tool_input hookData) st = Inl err"
      and "pre_tool e hookData st = Inl err"
  | (spawn) sid st1 where "currentSessionId (ctx st) = Some sid" and "sid \<noteq> []"
      and "hook_tool_name hookData = ''Task''"
      and "generateId e \<notin> a_id ` set (agents (db st))"
      and "spawn_agent e sid (ctx st) (hook_tool_input hookData) st = Inr st1"
      and "pre_tool e hookData st
           = Inr (record_tool_use e sid (ctx st) ''Task'' (hook_tool_input hookData) st1)"
proof (cases "str_or_null (currentSessionId (ctx st))")
  case None
  then have "pre_tool e hookData st = Inr st"
    by (simp add: pre_tool_def)
  with None show ?thesis by (rule no_session)
next
  case (Some sid)
  then have sid: "currentSessionId (ctx st) = Some sid" "sid \<noteq> []"
    by simp_all
  show ?thesis
  proof (cases "hook_tool_name hookData = ''Task''")
    case False
    with Some have "pre_tool e hookData st
           = Inr (record_tool_use e sid (ctx st) (hook_tool_name hookData)
                    (hook_tool_input hookData) st)"
      by (simp add: pre_tool_def Let_def)
    with sid False show ?thesis by (rule plain)
  next
    case True
    show ?thesis
    proof (cases "spawn_agent e sid (ctx st) (hook_tool_input hookData) st")
      case (Inl err)
      with Some True have "pre_tool e hookData st = Inl err"
        by (simp add: pre_tool_def Let_def)
      with sid True Inl show ?thesis by (intro refused)
    next
      case (Inr st1)
      then have "generateId e \<notin> a_id ` set (agents (db st))"
        by (simp add: spawn_agent_Inr)
      moreover from Inr Some True
      have "pre_tool e hookData st
           = Inr (record_tool_use e sid (ctx st) ''Task'' (hook_tool_input hookData) st1)"
        by (simp add: pre_tool_def Let_def)
      ultimately show ?thesis using sid True Inr by (intro spawn)
    qed
  qed
qed

lemma session_start_ctx [simp]:
  "ctx (session_start e data st) = \<lparr>currentSessionId = Some (generateId e), currentAgentId = None,
      pendingToolUseId = None, agentStack = []\<rparr>"
  by (simp add: session_start_def Let_def)

lemma session_start_db:
  "db (session_start e data st)
     = createSession (clock e) (generateId e) data (cleanupStalePendingTools (clock e) (db st))"
  by (simp add: session_start_def Let_def)

lemma session_end_ctx [simp]:
  "ctx (session_end e st) = \<lparr>currentSessionId = None, currentAgentId = None,
      pendingToolUseId = None, agentStack = []\<rparr>"
  by (simp add: session_end_def Let_def)

lemma session_end_db:
  "db (session_end e st) =
     (case str_or_null (currentSessionId (ctx st)) of
        None \<Rightarrow> db st
      | Some sid \<Rightarrow>
          endSession (clock e) sid
            (recordEvent (clock e)
               \<lparr>ev_sessionId = sid, ev_agentId = None, ev_eventType = ''session_end'',
                ev_eventData = Some (JObj [(''endedAt'', JStr (iso_now e))])\<rparr>
               (markPendingToolsInterrupted (clock e) sid (db st))))"
  by (simp add: session_end_def Let_def)

text \<open>The hooks between the start and the end of a session keep the session id of the
  context.\<close>

lemma post_tool_session [simp]:
  "currentSessionId (ctx (post_tool e hookData st)) = currentSessionId (ctx st)"
  by (simp add: post_tool_def split: option.splits)

lemma post_tool_ctx [simp]:
  "currentAgentId (ctx (post_tool e hookData st)) = currentAgentId (ctx st)"
  "agentStack (ctx (post_tool e hookData st)) = agentStack (ctx st)"
  by (simp_all add: post_tool_def split: option.splits)

lemma stop_ctx [simp]: "ctx (stop e reason st) = ctx st"
  by (simp add: stop_def Let_def split: option.splits)

lemma subagent_stop_session [simp]:
  "currentSessionId (ctx (subagent_stop e r st)) = currentSessionId (ctx st)"
  by (simp add: subagent_stop_def Let_def split: option.splits)

lemma pre_tool_session:
  assumes "pre_tool e hookData st = Inr st'"
  shows "currentSessionId (ctx st') = currentSessionId (ctx st)"
proof (cases e hookData st rule: pre_tool_cases)
  case (spawn sid st1)
  from spawn(5) have "currentSessionId (ctx st1) = currentSessionId (ctx st)"
    by (simp add: spawn_agent_Inr)
  with spawn(6) assms show ?thesis by auto
qed (use assms in auto)

lemma step_in_session:
  "in_session h \<Longrightarrow> currentSessionId (ctx (step h st)) = currentSessionId (ctx st)"
  by (cases h) (auto split: sum.splits dest: pre_tool_session)

lemma run_Nil [simp]: "run [] st = st"
  by (simp add: run_def)

lemma run_Cons [simp]: "run (h # hs) st = run hs (step h st)"
  by (simp add: run_def)

lemma run_append [simp]: "run (hs @ hs') st = run hs' (run hs st)"
  by (simp add: run_def)

lemma run_in_session:
  "\<forall>h \<in> set hs. in_session h \<Longrightarrow>
     currentSessionId (ctx (run hs st)) = currentSessionId (ctx st)"
  by (induction hs arbitrary: st) (simp_all add: step_in_session)

lemma reachable_initial: "reachable initial_state"
  unfolding reachable_def by (rule exI [of _ "[]"]) simp

lemma reachable_step: "reachable st \<Longrightarrow> reachable (step h st)"
proof -
  assume "reachable st"
  then obtain hs where "st = run hs initial_state"
    unfolding reachable_def by blast
  then have "step h st = run (hs @ [h]) initial_state"
    by simp
  then show ?thesis
    unfolding reachable_def by blast
qed

lemma reachable_run: "reachable st \<Longrightarrow> reachable (run hs st)"
  by (induction hs arbitrary: st) (simp_all add: reachable_step)

text \<open>An invariant of the initial state that every hook keeps holds in every reachable
  state.\<close>

lemma invariant_run:
  assumes "P st" and "\<And>h st. P st \<Longrightarrow> P (step h st)"
  shows "P (run hs st)"
  using assms(1) by (induction hs arbitrary: st) (simp_all add: assms(2))

lemma invariant_reachable:
  assumes "reachable st" and "P initial_state" and "\<And>h st. P st \<Longrightarrow> P (step h st)"
  shows "P st"
  using assms unfolding reachable_def by (auto intro: invariant_run)


text \<open>The agents table after each hook.\<close>

lemma session_start_agents [simp]: "agents (db (session_start e data st)) = agents (db st)"
  by (simp add: session_start_db)

lemma session_end_agents [simp]: "agents (db (session_end e st)) = agents (db st)"
  by (simp add: session_end_db split: option.splits)

lemma post_tool_agents [simp]: "agents (db (post_tool e hookData st)) = agents (db st)"
  by (simp add: post_tool_def split: option.splits)

lemma stop_agents [simp]: "agents (db (stop e reason st)) = agents (db st)"
  by (simp add: stop_def Let_def split: option.splits)

lemma subagent_stop_agents:
  "agents (db (subagent_stop e r st)) =
     (if str_or_null (currentSessionId (ctx st)) \<noteq> None \<and> agentStack (ctx st) \<noteq> []
      then map (\<lambda>a. if a_id a = last (agentStack (ctx st))
                     then a\<lparr>a_ended_at := Some (clock e), a_status := Completed\<rparr> else a)
             (agents (db st))
      else agents (db st))"
  by (auto simp: subagent_stop_def Let_def endAgent_def split: option.splits)

lemma pre_tool_agents:
  assumes "pre_tool e hookData st = Inr st'"
  shows "agents (db st') = agents (db st) \<or>
     (\<exists>a. agents (db st') = agents (db st) @ [a] \<and> a_id a = generateId e \<and>
          a_status a = Running \<and> a_ended_at a = None)"
proof (cases e hookData st rule: pre_tool_cases)
  case no_session
  with assms show ?thesis by simp
next
  case (plain sid)
  with assms show ?thesis by auto
next
  case (refused sid)
  with assms show ?thesis by simp
next
  case (spawn sid st1)
  from spawn(5) have "\<exists>a. agents (db st1) = agents (db st) @ [a] \<and> a_id a = generateId e \<and>
          a_status a = Running \<and> a_ended_at a = None"
    by (simp add: spawn_agent_Inr)
  with spawn(6) assms show ?thesis by auto
qed

lemma step_agents:
  "(\<exists>e r. h = SubagentStop e r)
   \<or> agents (db (step h st)) = agents (db st)
   \<or> (\<exists>a. agents (db (step h st)) = agents (db st) @ [a] \<and>
          a_status a = Running \<and> a_ended_at a = None)"
proof (cases h)
  case (PreToolUse e hookData)
  show ?thesis
  proof (cases "pre_tool e hookData st")
    case (Inl err)
    with PreToolUse show ?thesis by simp
  next
    case (Inr st')
    from pre_tool_agents [OF Inr] PreToolUse Inr show ?thesis by auto
  qed
qed simp_all

lemma step_agent_row:
  assumes "i < length (agents (db st))"
  shows "agents (db (step h st)) ! i = agents (db st) ! i
     \<or> (\<exists>e r. h = SubagentStop e r \<and>
          agents (db (step h st)) ! i
            = (agents (db st) ! i)\<lparr>a_ended_at := Some (clock e), a_status := Completed\<rparr>)"
proof (cases "\<exists>e r. h = SubagentStop e r")
  case True
  then obtain e r where h: "h = SubagentStop e r" by blast
  with assms show ?thesis
    by (simp add: subagent_stop_agents)
next
  case False
  with step_agents [of h st] assms show ?thesis
    by (auto simp: nth_append)
qed

lemma length_step_agents: "length (agents (db st)) \<le> length (agents (db (step h st)))"
proof (cases "\<exists>e r. h = SubagentStop e r")
  case True
  then show ?thesis by (auto simp: subagent_stop_agents)
next
  case False
  with step_agents [of h st] show ?thesis by auto
qed


section \<open>The agent forest\<close>

lemma steps_to_root_mono:
  "steps_to_root n rows i = Some k \<Longrightarrow> n \<le> m \<Longrightarrow> steps_to_root m rows i = Some k"
proof (induction n arbitrary: m i k)
  case 0
  then show ?case by simp
next
  case (Suc n)
  from Suc.prems(2) obtain m' where m: "m = Suc m'" and le: "n \<le> m'"
    by (cases m) auto
  show ?case
  proof (cases "parent_of rows i")
    case None
    with Suc.prems(1) show ?thesis by simp
  next
    case (Some link)
    show ?thesis
    proof (cases link)
      case None
      with Some Suc.prems(1) m show ?thesis by simp
    next
      case (Some p)
      with \<open>parent_of rows i = Some link\<close> Suc.prems(1)
      obtain k' where k': "steps_to_root n rows p = Some k'" and k: "k = Suc k'"
        by auto
      from Suc.IH [OF k' le] have "steps_to_root m' rows p = Some k'" .
      with Some \<open>parent_of rows i = Some link\<close> m k show ?thesis by simp
    qed
  qed
qed

lemma steps_to_root_unique:
  assumes "steps_to_root n rows i = Some k" and "steps_to_root m rows i = Some k'"
  shows "k = k'"
proof -
  from assms(1) have "steps_to_root (max n m) rows i = Some k"
    by (rule steps_to_root_mono) simp
  moreover from assms(2) have "steps_to_root (max n m) rows i = Some k'"
    by (rule steps_to_root_mono) simp
  ultimately show ?thesis by simp
qed

lemma steps_to_root_stable:
  assumes "\<And>j. j \<in> dom (parent_of rows) \<Longrightarrow> parent_of rows' j = parent_of rows j"
  shows "steps_to_root n rows i = Some k \<Longrightarrow> steps_to_root n rows' i = Some k"
proof (induction n arbitrary: i k)
  case 0
  then show ?case by simp
next
  case (Suc n)
  from Suc.prems obtain link where link: "parent_of rows i = Some link"
    by (cases "parent_of rows i") auto
  then have "i \<in> dom (parent_of rows)" by auto
  with assms link have link': "parent_of rows' i = Some link" by simp
  show ?case
  proof (cases link)
    case None
    with link link' Suc.prems show ?thesis by simp
  next
    case (Some p)
    with link Suc.prems obtain k' where k': "steps_to_root n rows p = Some k'" and k: "k = Suc k'"
      by auto
    from Suc.IH [OF k'] have "steps_to_root n rows' p = Some k'" .
    with Some link' k show ?thesis by simp
  qed
qed

lemma parent_of_nth:
  assumes "distinct (map a_id rows)" and "i < length rows"
  shows "parent_of rows (a_id (rows ! i)) = Some (a_parent_agent_id (rows ! i))"
proof -
  have "distinct (map fst (map (\<lambda>a. (a_id a, a_parent_agent_id a)) rows))"
    using assms(1) by (simp add: comp_def)
  moreover have "(a_id (rows ! i), a_parent_agent_id (rows ! i))
      \<in> set (map (\<lambda>a. (a_id a, a_parent_agent_id a)) rows)"
    using assms(2) by (auto simp: image_iff intro: nth_mem)
  ultimately show ?thesis
    unfolding parent_of_def by (rule map_of_is_SomeI)
qed

lemma parent_of_row:
  assumes "distinct (map a_id rows)" and "a \<in> set rows"
  shows "parent_of rows (a_id a) = Some (a_parent_agent_id a)"
proof -
  from assms(2) obtain i where "i < length rows" and "rows ! i = a"
    by (auto simp: in_set_conv_nth)
  with parent_of_nth [OF assms(1), of i] show ?thesis by simp
qed

text \<open>A parent link to an earlier row bounds the number of steps by the row's position.\<close>

lemma steps_to_root_index:
  assumes dist: "distinct (map a_id rows)"
    and earlier: "\<forall>i < length rows. \<forall>p. a_parent_agent_id (rows ! i) = Some p \<longrightarrow>
         (\<exists>j < i. a_id (rows ! j) = p)"
  shows "i < length rows \<Longrightarrow>
     \<exists>k. steps_to_root (Suc i) rows (a_id (rows ! i)) = Some k \<and> k \<le> Suc i"
proof (induction i rule: less_induct)
  case (less i)
  note link = parent_of_nth [OF dist less.prems]
  show ?case
  proof (cases "a_parent_agent_id (rows ! i)")
    case None
    with link show ?thesis by simp
  next
    case (Some p)
    with earlier less.prems obtain j where j: "j < i" and p: "a_id (rows ! j) = p"
      by blast
    from j less.prems have jl: "j < length rows" by simp
    from less.IH [OF j jl] p obtain k where
      k: "steps_to_root (Suc j) rows p = Some k" and kj: "k \<le> Suc j"
      by blast
    from k j have "steps_to_root i rows p = Some k"
      by (intro steps_to_root_mono [OF k]) simp
    with link Some have "steps_to_root (Suc i) rows (a_id (rows ! i)) = Some (Suc k)"
      by simp
    with kj j show ?thesis by simp
  qed
qed

lemma depth_bounded:
  assumes "distinct (map a_id rows)"
    and "\<forall>i < length rows. \<forall>p. a_parent_agent_id (rows ! i) = Some p \<longrightarrow>
         (\<exists>j < i. a_id (rows ! j) = p)"
    and "a \<in> set rows"
  shows "\<exists>k. depth rows (a_id a) = Some k \<and> k \<le> length rows"
proof -
  from assms(3) obtain i where i: "i < length rows" and a: "rows ! i = a"
    by (auto simp: in_set_conv_nth)
  from steps_to_root_index [OF assms(1,2) i] a obtain k where
    k: "steps_to_root (Suc i) rows (a_id a) = Some k" and ki: "k \<le> Suc i"
    by blast
  from k i have "steps_to_root (length rows) rows (a_id a) = Some k"
    by (intro steps_to_root_mono [OF k]) simp
  with ki i show ?thesis by (simp add: depth_def)
qed

text \<open>From the \<open>k\<close>-th entry of the stack, null is reached in \<open>k + 1\<close> steps.\<close>

lemma steps_to_root_stack:
  assumes dist: "distinct (map a_id rows)"
    and chain: "\<forall>k < length stack. \<exists>a \<in> set rows. a_id a = stack ! k \<and>
         a_parent_agent_id a = (if k = 0 then None else Some (stack ! (k - 1)))"
  shows "k < length stack \<Longrightarrow> steps_to_root (Suc k) rows (stack ! k) = Some (Suc k)"
proof (induction k)
  case 0
  with chain obtain a where "a \<in> set rows" "a_id a = stack ! 0" "a_parent_agent_id a = None"
    by force
  with parent_of_row [OF dist, of a] show ?case by simp
next
  case (Suc k)
  with chain obtain a where a: "a \<in> set rows" "a_id a = stack ! Suc k"
    "a_parent_agent_id a = Some (stack ! k)"
    by force
  from Suc have "steps_to_root (Suc k) rows (stack ! k) = Some (Suc k)" by simp
  with parent_of_row [OF dist a(1)] a(2,3) show ?case by simp
qed


subsection \<open>Every hook keeps the invariant of the agent forest\<close>

lemma agent_forest_ok_same:
  assumes "agent_forest_ok st" and "agents (db st') = agents (db st)"
    and "currentSessionId (ctx st') = currentSessionId (ctx st)"
    and "currentAgentId (ctx st') = currentAgentId (ctx st)"
    and "agentStack (ctx st') = agentStack (ctx st)"
  shows "agent_forest_ok st'"
  using assms(1) unfolding agent_forest_ok_def Let_def assms(2-5) .

lemma agent_forest_ok_reset:
  assumes "agent_forest_ok st" and "agents (db st') = agents (db st)"
    and "currentAgentId (ctx st') = None" and "agentStack (ctx st') = []"
  shows "agent_forest_ok st'"
  using assms unfolding agent_forest_ok_def Let_def by simp

lemma agent_forest_ok_subagent_stop:
  assumes ok: "agent_forest_ok st"
  shows "agent_forest_ok (subagent_stop e r st)"
proof (cases "str_or_null (currentSessionId (ctx st)) \<noteq> None \<and> agentStack (ctx st) \<noteq> []")
  case False
  then have "subagent_stop e r st = st"
    by (auto simp: subagent_stop_def Let_def split: option.splits)
  with ok show ?thesis by simp
next
  case True
  let ?rows = "agents (db st)"
  let ?stack = "agentStack (ctx st)"
  define close :: "agent_row \<Rightarrow> agent_row" where "close = (\<lambda>a. if a_id a = last ?stack
                     then a\<lparr>a_ended_at := Some (clock e), a_status := Completed\<rparr> else a)"
  let ?st' = "subagent_stop e r st"
  from True have rows': "agents (db ?st') = map close ?rows"
    by (simp add: subagent_stop_agents close_def)
  from True have ctx': "agentStack (ctx ?st') = butlast ?stack"
    "currentAgentId (ctx ?st')
       = (if butlast ?stack \<noteq> [] then Some (last (butlast ?stack)) else None)"
    "currentSessionId (ctx ?st') = currentSessionId (ctx st)"
    by (auto simp: subagent_stop_def Let_def split: option.splits)
  have keep: "a_id (close a) = a_id a" "a_session_id (close a) = a_session_id a"
    "a_parent_agent_id (close a) = a_parent_agent_id a" for a
    by (simp_all add: close_def)
  have ids: "map a_id (map close ?rows) = map a_id ?rows"
    by (simp add: comp_def keep)
  from ok have dist: "distinct (map a_id ?rows)"
    and nonempty: "\<forall>a \<in> set ?rows. a_id a \<noteq> []"
    and earlier: "\<forall>i < length ?rows. \<forall>p. a_parent_agent_id (?rows ! i) = Some p \<longrightarrow>
         (\<exists>j < i. a_id (?rows ! j) = p \<and> a_session_id (?rows ! j) = a_session_id (?rows ! i))"
    and chain: "\<forall>k < length ?stack. \<exists>a \<in> set ?rows.
         a_id a = ?stack ! k \<and> Some (a_session_id a) = currentSessionId (ctx st) \<and>
         a_parent_agent_id a = (if k = 0 then None else Some (?stack ! (k - 1)))"
    unfolding agent_forest_ok_def Let_def by blast+
  have 1: "distinct (map a_id (map close ?rows))"
    using dist by (simp only: ids)
  have 2: "\<forall>a \<in> set (map close ?rows). a_id a \<noteq> []"
    using nonempty by (auto simp: keep)
  have 3: "\<forall>i < length (map close ?rows). \<forall>p.
      a_parent_agent_id (map close ?rows ! i) = Some p \<longrightarrow>
         (\<exists>j < i. a_id (map close ?rows ! j) = p \<and>
            a_session_id (map close ?rows ! j) = a_session_id (map close ?rows ! i))"
  proof (intro allI impI)
    fix i p
    assume i: "i < length (map close ?rows)"
      and p: "a_parent_agent_id (map close ?rows ! i) = Some p"
    from i have il: "i < length ?rows" by simp
    with p have "a_parent_agent_id (?rows ! i) = Some p"
      by (simp only: nth_map keep)
    with earlier il obtain j where j: "j < i" "a_id (?rows ! j) = p"
      "a_session_id (?rows ! j) = a_session_id (?rows ! i)"
      by blast
    from j(1) il have jl: "j < length ?rows" by simp
    have "a_id (map close ?rows ! j) = p"
      using j(2) jl by (simp only: nth_map keep)
    moreover have "a_session_id (map close ?rows ! j) = a_session_id (map close ?rows ! i)"
      using j(3) jl il by (simp only: nth_map keep)
    ultimately show "\<exists>j < i. a_id (map close ?rows ! j) = p \<and>
            a_session_id (map close ?rows ! j) = a_session_id (map close ?rows ! i)"
      using j(1) by blast
  qed
  have 4: "(if butlast ?stack \<noteq> [] then Some (last (butlast ?stack)) else None)
      = (if butlast ?stack = [] then None else Some (last (butlast ?stack)))"
    by simp
  have 5: "\<forall>k < length (butlast ?stack). \<exists>a \<in> set (map close ?rows).
         a_id a = butlast ?stack ! k \<and> Some (a_session_id a) = currentSessionId (ctx st) \<and>
         a_parent_agent_id a = (if k = 0 then None else Some (butlast ?stack ! (k - 1)))"
  proof (intro allI impI)
    fix k
    assume k: "k < length (butlast ?stack)"
    then have kl: "k < length ?stack" by simp
    with chain obtain a where a: "a \<in> set ?rows" "a_id a = ?stack ! k"
      "Some (a_session_id a) = currentSessionId (ctx st)"
      "a_parent_agent_id a = (if k = 0 then None else Some (?stack ! (k - 1)))"
      by blast
    from k have n1: "butlast ?stack ! k = ?stack ! k"
      by (simp add: nth_butlast)
    from k have n2: "butlast ?stack ! (k - 1) = ?stack ! (k - 1)"
      by (simp add: nth_butlast)
    from a(1) have "close a \<in> set (map close ?rows)"
      by simp
    moreover have "a_id (close a) = butlast ?stack ! k"
      using a(2) n1 by (simp only: keep)
    moreover have "Some (a_session_id (close a)) = currentSessionId (ctx st)"
      using a(3) by (simp only: keep)
    moreover have "a_parent_agent_id (close a)
        = (if k = 0 then None else Some (butlast ?stack ! (k - 1)))"
      using a(4) n2 by (simp only: keep)
    ultimately show "\<exists>a \<in> set (map close ?rows).
         a_id a = butlast ?stack ! k \<and> Some (a_session_id a) = currentSessionId (ctx st) \<and>
         a_parent_agent_id a = (if k = 0 then None else Some (butlast ?stack ! (k - 1)))"
      by blast
  qed
  show ?thesis
    unfolding agent_forest_ok_def Let_def rows' ctx'
    using 1 2 3 4 5 by (intro conjI) assumption+
qed


lemma agent_forest_ok_spawn:
  assumes ok: "agent_forest_ok st"
    and sid: "currentSessionId (ctx st) = Some sid"
    and spawn: "spawn_agent e sid (ctx st) inp st = Inr st1"
  shows "agent_forest_ok st1"
proof -
  let ?rows = "agents (db st)"
  let ?stack = "agentStack (ctx st)"
  let ?gid = "generateId e"
  define new :: agent_row where "new =
     \<lparr>a_id = ?gid, a_session_id = sid,
      a_parent_agent_id = str_or_null (currentAgentId (ctx st)),
      a_agent_type = Some (task_agent_type inp),
      a_description = (case task_description inp of
                         Inl err \<Rightarrow> None | Inr descr \<Rightarrow> json_or_null descr),
      a_started_at = clock e, a_ended_at = None, a_status = Running\<rparr>"
  have new: "a_id new = ?gid" "a_session_id new = sid"
    "a_parent_agent_id new = str_or_null (currentAgentId (ctx st))"
    by (simp_all add: new_def)
  from spawn have fresh: "?gid \<notin> a_id ` set ?rows"
    and rows1: "agents (db st1) = ?rows @ [new]"
    and ctx1: "agentStack (ctx st1) = ?stack @ [?gid]"
      "currentAgentId (ctx st1) = Some ?gid"
      "currentSessionId (ctx st1) = Some sid"
    using sid by (simp_all add: spawn_agent_Inr new_def)
  from ok have dist: "distinct (map a_id ?rows)"
    and nonempty: "\<forall>a \<in> set ?rows. a_id a \<noteq> []"
    and earlier: "\<forall>i < length ?rows. \<forall>p. a_parent_agent_id (?rows ! i) = Some p \<longrightarrow>
         (\<exists>j < i. a_id (?rows ! j) = p \<and> a_session_id (?rows ! j) = a_session_id (?rows ! i))"
    and top: "currentAgentId (ctx st) = (if ?stack = [] then None else Some (last ?stack))"
    and chain: "\<forall>k < length ?stack. \<exists>a \<in> set ?rows.
         a_id a = ?stack ! k \<and> Some (a_session_id a) = currentSessionId (ctx st) \<and>
         a_parent_agent_id a = (if k = 0 then None else Some (?stack ! (k - 1)))"
    unfolding agent_forest_ok_def Let_def by blast+
  text \<open>The agent on top of the stack is a row of the current session.\<close>
  have top_row: "\<exists>a \<in> set ?rows. a_id a = last ?stack \<and> a_session_id a = sid"
    if "?stack \<noteq> []"
  proof -
    from that have "length ?stack - 1 < length ?stack" by simp
    with chain obtain a where "a \<in> set ?rows" "a_id a = ?stack ! (length ?stack - 1)"
      "Some (a_session_id a) = currentSessionId (ctx st)"
      by blast
    with that sid have "a \<in> set ?rows \<and> a_id a = last ?stack \<and> a_session_id a = sid"
      by (simp add: last_conv_nth)
    then show ?thesis by blast
  qed
  have parent_new: "a_parent_agent_id new = (if ?stack = [] then None else Some (last ?stack))"
  proof (cases "?stack = []")
    case True
    with top new(3) show ?thesis by (simp add: str_or_null_def)
  next
    case False
    from top_row [OF False] obtain a where "a \<in> set ?rows" and "a_id a = last ?stack"
      by blast
    with nonempty have "last ?stack \<noteq> []" by force
    with top False new(3) show ?thesis by simp
  qed
  have 1: "distinct (map a_id (?rows @ [new]))"
    using dist fresh new(1) by simp
  have 2: "\<forall>a \<in> set (?rows @ [new]). a_id a \<noteq> []"
    using nonempty new(1) by simp
  have 3: "\<forall>i < length (?rows @ [new]). \<forall>p.
      a_parent_agent_id ((?rows @ [new]) ! i) = Some p \<longrightarrow>
         (\<exists>j < i. a_id ((?rows @ [new]) ! j) = p \<and>
            a_session_id ((?rows @ [new]) ! j) = a_session_id ((?rows @ [new]) ! i))"
  proof (intro allI impI)
    fix i p
    assume i: "i < length (?rows @ [new])"
      and p: "a_parent_agent_id ((?rows @ [new]) ! i) = Some p"
    show "\<exists>j < i. a_id ((?rows @ [new]) ! j) = p \<and>
            a_session_id ((?rows @ [new]) ! j) = a_session_id ((?rows @ [new]) ! i)"
    proof (cases "i < length ?rows")
      case True
      with p have "a_parent_agent_id (?rows ! i) = Some p"
        by (simp add: nth_append)
      with earlier True obtain j where j: "j < i" "a_id (?rows ! j) = p"
        "a_session_id (?rows ! j) = a_session_id (?rows ! i)"
        by blast
      from j(1) True have jl: "j < length ?rows" by simp
      show ?thesis
      proof (intro exI conjI)
        show "j < i" by (rule j(1))
        show "a_id ((?rows @ [new]) ! j) = p"
          using j(2) jl by (simp add: nth_append)
        show "a_session_id ((?rows @ [new]) ! j) = a_session_id ((?rows @ [new]) ! i)"
          using j(3) jl True by (simp add: nth_append)
      qed
    next
      case False
      with i have il: "i = length ?rows" by simp
      with p have pn: "a_parent_agent_id new = Some p" by simp
      have ne: "?stack \<noteq> []"
      proof
        assume "?stack = []"
        with parent_new pn show False by simp
      qed
      with parent_new pn have pl: "p = last ?stack" by simp
      from top_row [OF ne] pl obtain a where "a \<in> set ?rows" "a_id a = p" "a_session_id a = sid"
        by blast
      then obtain j where j: "j < length ?rows" "a_id (?rows ! j) = p"
        "a_session_id (?rows ! j) = sid"
        unfolding in_set_conv_nth by blast
      show ?thesis
      proof (intro exI conjI)
        show "j < i" using j(1) il by simp
        show "a_id ((?rows @ [new]) ! j) = p"
          using j(1,2) by (simp add: nth_append)
        show "a_session_id ((?rows @ [new]) ! j) = a_session_id ((?rows @ [new]) ! i)"
          using j(1,3) il new(2) by (simp add: nth_append)
      qed
    qed
  qed
  have 4: "Some ?gid = (if ?stack @ [?gid] = [] then None else Some (last (?stack @ [?gid])))"
    by simp
  have 5: "\<forall>k < length (?stack @ [?gid]). \<exists>a \<in> set (?rows @ [new]).
         a_id a = (?stack @ [?gid]) ! k \<and> Some (a_session_id a) = Some sid \<and>
         a_parent_agent_id a = (if k = 0 then None else Some ((?stack @ [?gid]) ! (k - 1)))"
  proof (intro allI impI)
    fix k
    assume k: "k < length (?stack @ [?gid])"
    show "\<exists>a \<in> set (?rows @ [new]).
         a_id a = (?stack @ [?gid]) ! k \<and> Some (a_session_id a) = Some sid \<and>
         a_parent_agent_id a = (if k = 0 then None else Some ((?stack @ [?gid]) ! (k - 1)))"
    proof (cases "k < length ?stack")
      case True
      with chain obtain a where a: "a \<in> set ?rows" "a_id a = ?stack ! k"
        "Some (a_session_id a) = currentSessionId (ctx st)"
        "a_parent_agent_id a = (if k = 0 then None else Some (?stack ! (k - 1)))"
        by blast
      from a(3) sid have as: "a_session_id a = sid" by simp
      from True have k1: "k - 1 < length ?stack" by simp
      from True have "(?stack @ [?gid]) ! k = ?stack ! k"
        by (simp add: nth_append)
      moreover from k1 have "(?stack @ [?gid]) ! (k - 1) = ?stack ! (k - 1)"
        by (simp add: nth_append)
      ultimately have "(?stack @ [?gid]) ! k = ?stack ! k"
        and "(?stack @ [?gid]) ! (k - 1) = ?stack ! (k - 1)"
        by simp_all
      with a(1,2,4) as show ?thesis
        by (intro bexI [of _ a]) simp_all
    next
      case False
      with k have kl: "k = length ?stack" by simp
      have "a_parent_agent_id new
          = (if k = 0 then None else Some ((?stack @ [?gid]) ! (k - 1)))"
      proof (cases "?stack = []")
        case True
        with parent_new kl show ?thesis by simp
      next
        case False
        then have "(?stack @ [?gid]) ! (k - 1) = last ?stack"
          using kl by (simp add: nth_append last_conv_nth)
        with parent_new kl False show ?thesis by simp
      qed
      with new(1,2) kl show ?thesis
        by (intro bexI [of _ new]) simp_all
    qed
  qed
  show ?thesis
    unfolding agent_forest_ok_def Let_def rows1 ctx1
    using 1 2 3 4 5 by (intro conjI) assumption+
qed

lemma agent_forest_ok_pre_tool:
  assumes ok: "agent_forest_ok st" and pre: "pre_tool e hookData st = Inr st'"
  shows "agent_forest_ok st'"
proof (cases e hookData st rule: pre_tool_cases)
  case no_session
  with pre ok show ?thesis by simp
next
  case (plain sid)
  with pre have "st' = record_tool_use e sid (ctx st) (hook_tool_name hookData)
      (hook_tool_input hookData) st"
    by simp
  with ok show ?thesis
    by (intro agent_forest_ok_same [OF ok]) simp_all
next
  case (refused sid err)
  with pre show ?thesis by simp
next
  case (spawn sid st1)
  from ok spawn(1,5) have ok1: "agent_forest_ok st1"
    by (rule agent_forest_ok_spawn)
  from spawn(6) pre have "st' = record_tool_use e sid (ctx st) ''Task''
      (hook_tool_input hookData) st1"
    by simp
  then show ?thesis
    by (intro agent_forest_ok_same [OF ok1]) simp_all
qed

lemma agent_forest_ok_step:
  assumes "agent_forest_ok st"
  shows "agent_forest_ok (step h st)"
proof (cases h)
  case (SessionStart e data)
  from assms show ?thesis
    unfolding SessionStart by (intro agent_forest_ok_reset [OF assms]) simp_all
next
  case (PreToolUse e hookData)
  show ?thesis
  proof (cases "pre_tool e hookData st")
    case (Inl err)
    with PreToolUse assms show ?thesis by simp
  next
    case (Inr st')
    from agent_forest_ok_pre_tool [OF assms Inr] PreToolUse Inr show ?thesis by simp
  qed
next
  case (PostToolUse e hookData)
  show ?thesis
    unfolding PostToolUse by (intro agent_forest_ok_same [OF assms]) simp_all
next
  case (SubagentStop e r)
  with agent_forest_ok_subagent_stop [OF assms] show ?thesis by simp
next
  case (Stop e reason)
  show ?thesis
    unfolding Stop by (intro agent_forest_ok_same [OF assms]) simp_all
next
  case (SessionEnd e)
  show ?thesis
    unfolding SessionEnd by (intro agent_forest_ok_reset [OF assms]) simp_all
qed

lemma agent_forest_ok_reachable: "reachable st \<Longrightarrow> agent_forest_ok st"
proof (erule invariant_reachable)
  show "agent_forest_ok initial_state"
    by (simp add: agent_forest_ok_def initial_state_def empty_db_def default_context_def)
qed (rule agent_forest_ok_step)


subsection \<open>Parent links are never rewritten\<close>

lemma parent_of_append:
  "j \<in> dom (parent_of rows) \<Longrightarrow> parent_of (rows @ [a]) j = parent_of rows j"
  by (auto simp: parent_of_def map_add_def split: option.splits)

lemma step_parent_of:
  assumes "j \<in> dom (parent_of (agents (db st)))"
  shows "parent_of (agents (db (step h st))) j = parent_of (agents (db st)) j"
proof (cases "\<exists>e r. h = SubagentStop e r")
  case True
  then obtain e r where h: "h = SubagentStop e r" by blast
  have "map (\<lambda>a. (a_id a, a_parent_agent_id a)) (agents (db (subagent_stop e r st)))
      = map (\<lambda>a. (a_id a, a_parent_agent_id a)) (agents (db st))"
    by (simp add: subagent_stop_agents comp_def if_distrib cong: if_cong)
  with h show ?thesis by (simp add: parent_of_def)
next
  case False
  with step_agents [of h st] consider "agents (db (step h st)) = agents (db st)"
    | a where "agents (db (step h st)) = agents (db st) @ [a]"
    by blast
  then show ?thesis
  proof cases
    case 1
    then show ?thesis by simp
  next
    case 2
    with assms show ?thesis by (simp add: parent_of_append)
  qed
qed

lemma run_parent_of:
  "j \<in> dom (parent_of (agents (db st))) \<Longrightarrow>
     parent_of (agents (db (run hs st))) j = parent_of (agents (db st)) j"
proof (induction hs arbitrary: st)
  case Nil
  then show ?case by simp
next
  case (Cons h hs)
  from Cons.prems have eq: "parent_of (agents (db (step h st))) j = parent_of (agents (db st)) j"
    by (rule step_parent_of)
  with Cons.prems have "j \<in> dom (parent_of (agents (db (step h st))))"
    by (auto simp: dom_def)
  from Cons.IH [OF this] eq show ?case by simp
qed

lemma run_length_agents: "length (agents (db st)) \<le> length (agents (db (run hs st)))"
proof (induction hs arbitrary: st)
  case Nil
  show ?case by simp
next
  case (Cons h hs)
  have "length (agents (db st)) \<le> length (agents (db (step h st)))"
    by (rule length_step_agents)
  also have "\<dots> \<le> length (agents (db (run hs (step h st))))"
    by (rule Cons.IH)
  finally show ?case by simp
qed

lemma depth_run:
  assumes "depth (agents (db st)) i = Some k"
  shows "depth (agents (db (run hs st))) i = Some k"
proof -
  let ?rows = "agents (db st)" and ?rows' = "agents (db (run hs st))"
  from assms have "steps_to_root (length ?rows) ?rows i = Some k"
    by (simp add: depth_def)
  then have "steps_to_root (length ?rows) ?rows' i = Some k"
    by (rule steps_to_root_stable [rotated]) (rule run_parent_of)
  then have "steps_to_root (length ?rows') ?rows' i = Some k"
    by (rule steps_to_root_mono) (rule run_length_agents)
  then show ?thesis by (simp add: depth_def)
qed

text \<open>An agent that has just been created reaches null in as many steps as the stack is
  deep once the agent is pushed.\<close>

lemma created_agent_depth:
  assumes ok: "agent_forest_ok st" and pre: "pre_tool e hookData st = Inr st'"
    and new: "agents (db st') \<noteq> agents (db st)"
  shows "a_id (last (agents (db st'))) = generateId e"
    and "agentStack (ctx st') = agentStack (ctx st) @ [generateId e]"
    and "depth (agents (db st')) (generateId e) = Some (length (agentStack (ctx st')))"
proof -
  let ?rows' = "agents (db st')" and ?stack' = "agentStack (ctx st')"
  let ?gid = "generateId e"
  from ok pre have ok': "agent_forest_ok st'"
    by (rule agent_forest_ok_pre_tool)
  have "\<exists>sid st1. spawn_agent e sid (ctx st) (hook_tool_input hookData) st = Inr st1
      \<and> st' = record_tool_use e sid (ctx st) ''Task'' (hook_tool_input hookData) st1"
  proof (cases e hookData st rule: pre_tool_cases)
    case no_session
    with pre new show ?thesis by simp
  next
    case (plain sid)
    with pre have "agents (db st') = agents (db st)" by auto
    with new show ?thesis by simp
  next
    case (refused sid err)
    with pre show ?thesis by simp
  next
    case (spawn sid st1)
    from spawn(6) pre have "st' = record_tool_use e sid (ctx st) ''Task''
        (hook_tool_input hookData) st1"
      by simp
    with spawn(5) show ?thesis by blast
  qed
  then obtain sid st1 where
    spawn: "spawn_agent e sid (ctx st) (hook_tool_input hookData) st = Inr st1"
    and st': "st' = record_tool_use e sid (ctx st) ''Task'' (hook_tool_input hookData) st1"
    by blast
  from spawn st' show last: "a_id (last ?rows') = ?gid"
    by (simp add: spawn_agent_Inr)
  from spawn st' show stack: "?stack' = agentStack (ctx st) @ [?gid]"
    by (simp add: spawn_agent_Inr)
  from spawn st' have "?rows' \<noteq> []"
    by (simp add: spawn_agent_Inr)
  with last have mem: "last ?rows' \<in> set ?rows'" by simp
  from ok' have dist: "distinct (map a_id ?rows')"
    and earlier: "\<forall>i < length ?rows'. \<forall>p. a_parent_agent_id (?rows' ! i) = Some p \<longrightarrow>
         (\<exists>j < i. a_id (?rows' ! j) = p)"
    and chain: "\<forall>k < length ?stack'. \<exists>a \<in> set ?rows'. a_id a = ?stack' ! k \<and>
         a_parent_agent_id a = (if k = 0 then None else Some (?stack' ! (k - 1)))"
    unfolding agent_forest_ok_def Let_def by blast+
  from depth_bounded [OF dist earlier mem] last obtain k where
    k: "steps_to_root (length ?rows') ?rows' ?gid = Some k"
    by (auto simp: depth_def)
  have "length ?stack' - 1 < length ?stack'"
    by (simp add: stack)
  from steps_to_root_stack [OF dist chain this]
  have "steps_to_root (length ?stack') ?rows' ?gid = Some (length ?stack')"
    by (simp add: stack)
  with k have "k = length ?stack'"
    by (rule steps_to_root_unique)
  with k show "depth ?rows' ?gid = Some (length ?stack')"
    by (simp add: depth_def)
qed


section \<open>The pre-tool hook of the spawning tool\<close>

text \<open>In a reachable state the current agent is an agent row.\<close>

lemma current_agent_is_row:
  assumes "agent_forest_ok st" and "currentAgentId (ctx st) = Some p"
  shows "p \<in> a_id ` set (agents (db st))"
proof -
  let ?stack = "agentStack (ctx st)"
  from assms(1) have top: "currentAgentId (ctx st)
      = (if ?stack = [] then None else Some (last ?stack))"
    and chain: "\<forall>k < length ?stack. \<exists>a \<in> set (agents (db st)). a_id a = ?stack ! k \<and>
         Some (a_session_id a) = currentSessionId (ctx st) \<and>
         a_parent_agent_id a = (if k = 0 then None else Some (?stack ! (k - 1)))"
    unfolding agent_forest_ok_def Let_def by blast+
  from top assms(2) have ne: "?stack \<noteq> []" and p: "p = last ?stack"
    by (simp_all split: if_splits)
  from ne have "length ?stack - 1 < length ?stack" by simp
  with chain obtain a where "a \<in> set (agents (db st))" "a_id a = ?stack ! (length ?stack - 1)"
    by blast
  with ne p have "a \<in> set (agents (db st))" "a_id a = p"
    by (simp_all add: last_conv_nth)
  then show ?thesis by force
qed

text \<open>
  Claim C1 as stated fails: in the session started from the empty store, the pre-tool hook
  of a \<open>Task\<close> call creates and pushes the agent whose id it generates, and inserts the
  tool-use row with a null \<open>agent_id\<close>, the agent that was current before the push.
\<close>

theorem task_tool_use_attribution_counterexample:
  "map a_id (agents (db one_agent_state)) = [generateId env2]
   \<and> currentAgentId (ctx one_agent_state) = Some (generateId env2)
   \<and> pendingToolUseId (ctx one_agent_state) = Some 1
   \<and> map t_id (tool_uses (db one_agent_state)) = [1]
   \<and> map t_status (tool_uses (db one_agent_state)) = [Pending]
   \<and> map t_agent_id (tool_uses (db one_agent_state)) = [None]"
  by code_simp

text \<open>
  Claim C1, amended. Take a pre-tool hook for the tool \<open>Task\<close> in an open session, whose
  generated id is new. On an input on which the branch throws (a prompt that is not a
  text under a falsy description, or an agent type or a description that is an array or
  an object), the hook ends with a \<^verbatim>\<open>TypeError\<close> and nothing is written. On every other
  input it appends one agent row (running, its parent the agent that was current before)
  and pushes it, making it the current agent; it appends one tool-use row with status
  pending for the session, whose \<open>agent_id\<close> is the agent that was current before the
  push (null at top level), which is the parent of the new agent and, in a reachable
  state, never the new agent; and it records \<^verbatim>\<open>Number\<close> of the id of that row as
  \<open>pendingToolUseId\<close>, which is the id itself as long as the id is at most \<open>2 ^ 53\<close>.
\<close>

theorem task_tool_use_attribution:
  assumes "currentSessionId (ctx st) = Some sid" and "sid \<noteq> []"
    and "hook_tool_name hookData = ''Task''"
    and "generateId e \<notin> a_id ` set (agents (db st))"
  shows "if task_input_throws (hook_tool_input hookData)
    then pre_tool e hookData st = Inl TypeError \<and> step (PreToolUse e hookData) st = st
    else \<exists>st' a t.
      pre_tool e hookData st = Inr st'
    \<and> agents (db st') = agents (db st) @ [a]
    \<and> a_id a = generateId e \<and> a_session_id a = sid \<and> a_status a = Running
    \<and> a_parent_agent_id a = str_or_null (currentAgentId (ctx st))
    \<and> tool_uses (db st') = tool_uses (db st) @ [t]
    \<and> t_status t = Pending \<and> t_session_id t = sid \<and> t_tool_name t = ''Task''
    \<and> t_agent_id t = str_or_null (currentAgentId (ctx st))
    \<and> t_agent_id t = a_parent_agent_id a
    \<and> (reachable st \<longrightarrow> t_agent_id t \<noteq> Some (a_id a))
    \<and> t_id t = Suc (tool_seq (db st))
    \<and> pendingToolUseId (ctx st') = Some (js_Number (t_id t))
    \<and> (t_id t \<le> 2 ^ 53 \<longrightarrow> pendingToolUseId (ctx st') = Some (t_id t))
    \<and> currentAgentId (ctx st') = Some (a_id a)
    \<and> agentStack (ctx st') = agentStack (ctx st) @ [a_id a]
    \<and> currentSessionId (ctx st') = Some sid"
proof (cases e hookData st rule: pre_tool_cases)
  case no_session
  with assms show ?thesis by simp
next
  case (plain sid')
  with assms show ?thesis by simp
next
  case (refused sid' err)
  with assms have sid': "sid' = sid" by simp
  from refused(4) assms(4) have throws: "task_input_throws (hook_tool_input hookData)"
    and err: "err = TypeError"
    by (simp_all add: spawn_agent_Inl split: if_splits)
  from refused(5) err have "pre_tool e hookData st = Inl TypeError"
    by simp
  moreover from this have "step (PreToolUse e hookData) st = st"
    by simp
  ultimately show ?thesis using throws by simp
next
  case (spawn sid' st1)
  with assms have sid': "sid' = sid" by simp
  from spawn(5) have ok: "\<not> task_input_throws (hook_tool_input hookData)"
    by (simp add: spawn_agent_Inr)
  define a :: agent_row where "a =
     \<lparr>a_id = generateId e, a_session_id = sid,
      a_parent_agent_id = str_or_null (currentAgentId (ctx st)),
      a_agent_type = Some (task_agent_type (hook_tool_input hookData)),
      a_description = (case task_description (hook_tool_input hookData) of
                         Inl err \<Rightarrow> None | Inr descr \<Rightarrow> json_or_null descr),
      a_started_at = clock e, a_ended_at = None, a_status = Running\<rparr>"
  define t :: tool_use_row where "t =
     \<lparr>t_id = Suc (tool_seq (db st)), t_session_id = sid,
      t_agent_id = str_or_null (currentAgentId (ctx st)),
      t_tool_name = ''Task'',
      t_tool_input = json_or_null (hook_tool_input hookData),
      t_tool_output = None, t_started_at = clock e, t_ended_at = None,
      t_duration_ms = None, t_status = Pending, t_error = None\<rparr>"
  define st' where "st' = record_tool_use e sid (ctx st) ''Task'' (hook_tool_input hookData) st1"
  from spawn(5) sid' have st1:
    "agents (db st1) = agents (db st) @ [a]"
    "tool_uses (db st1) = tool_uses (db st)"
    "tool_seq (db st1) = tool_seq (db st)"
    "ctx st1 = (ctx st)\<lparr>currentAgentId := Some (generateId e),
                        agentStack := agentStack (ctx st) @ [generateId e]\<rparr>"
    by (simp_all add: spawn_agent_Inr a_def)
  have 1: "pre_tool e hookData st = Inr st'"
    using spawn(6) sid' by (simp add: st'_def)
  have 2: "agents (db st') = agents (db st) @ [a]"
    by (simp add: st'_def st1)
  have 3: "a_id a = generateId e" "a_session_id a = sid" "a_status a = Running"
    "a_parent_agent_id a = str_or_null (currentAgentId (ctx st))"
    by (simp_all add: a_def)
  have 4: "tool_uses (db st') = tool_uses (db st) @ [t]"
    by (simp add: st'_def record_tool_use_db recordToolStart_def Let_def st1 t_def)
  have 5: "t_status t = Pending" "t_session_id t = sid" "t_tool_name t = ''Task''"
    "t_agent_id t = str_or_null (currentAgentId (ctx st))"
    "t_id t = Suc (tool_seq (db st))"
    by (simp_all add: t_def)
  have 6: "t_agent_id t = a_parent_agent_id a"
    by (simp add: 3 5)
  have 7: "reachable st \<longrightarrow> t_agent_id t \<noteq> Some (a_id a)"
  proof (intro impI notI)
    assume r: "reachable st" and "t_agent_id t = Some (a_id a)"
    then have "currentAgentId (ctx st) = Some (generateId e)"
      by (simp add: 3 5)
    with agent_forest_ok_reachable [OF r] have "generateId e \<in> a_id ` set (agents (db st))"
      by (rule current_agent_is_row)
    with assms(4) show False by simp
  qed
  have 8: "pendingToolUseId (ctx st') = Some (js_Number (t_id t))"
    "currentAgentId (ctx st') = Some (a_id a)"
    "agentStack (ctx st') = agentStack (ctx st) @ [a_id a]"
    "currentSessionId (ctx st') = Some sid"
    using assms(1) by (simp_all add: st'_def st1 3 5)
  have 9: "t_id t \<le> 2 ^ 53 \<longrightarrow> pendingToolUseId (ctx st') = Some (t_id t)"
    using 8(1) by simp
  from 1 2 3 4 5 6 7 8 9 have "\<exists>st' a t.
      pre_tool e hookData st = Inr st'
    \<and> agents (db st') = agents (db st) @ [a]
    \<and> a_id a = generateId e \<and> a_session_id a = sid \<and> a_status a = Running
    \<and> a_parent_agent_id a = str_or_null (currentAgentId (ctx st))
    \<and> tool_uses (db st') = tool_uses (db st) @ [t]
    \<and> t_status t = Pending \<and> t_session_id t = sid \<and> t_tool_name t = ''Task''
    \<and> t_agent_id t = str_or_null (currentAgentId (ctx st))
    \<and> t_agent_id t = a_parent_agent_id a
    \<and> (reachable st \<longrightarrow> t_agent_id t \<noteq> Some (a_id a))
    \<and> t_id t = Suc (tool_seq (db st))
    \<and> pendingToolUseId (ctx st') = Some (js_Number (t_id t))
    \<and> (t_id t \<le> 2 ^ 53 \<longrightarrow> pendingToolUseId (ctx st') = Some (t_id t))
    \<and> currentAgentId (ctx st') = Some (a_id a)
    \<and> agentStack (ctx st') = agentStack (ctx st) @ [a_id a]
    \<and> currentSessionId (ctx st') = Some sid"
    by (intro exI [of _ st'] exI [of _ a] exI [of _ t] conjI) assumption+
  with ok show ?thesis by (simp only: if_False)
qed


theorem task_tool_use_attribution_witness:
  "currentSessionId (ctx one_agent_state) = Some (generateId env1)
   \<and> pre_tool env3 task_call one_agent_state
       = Inr (step (PreToolUse env3 task_call) one_agent_state)
   \<and> map a_id (agents (db (step (PreToolUse env3 task_call) one_agent_state)))
       = [generateId env2, generateId env3]
   \<and> map t_agent_id (tool_uses (db (step (PreToolUse env3 task_call) one_agent_state)))
       = [None, Some (generateId env2)]
   \<and> t_status (last (tool_uses (db (step (PreToolUse env3 task_call) one_agent_state))))
       = Pending
   \<and> t_agent_id (last (tool_uses (db (step (PreToolUse env3 task_call) one_agent_state))))
       = a_parent_agent_id (last (agents (db (step (PreToolUse env3 task_call) one_agent_state))))
   \<and> pendingToolUseId (ctx (step (PreToolUse env3 task_call) one_agent_state))
       = Some (t_id (last (tool_uses (db (step (PreToolUse env3 task_call) one_agent_state)))))
   \<and> currentAgentId (ctx (step (PreToolUse env3 task_call) one_agent_state))
       = Some (generateId env3)
   \<and> task_input_throws (hook_tool_input number_prompt_call)
   \<and> pre_tool env3 number_prompt_call one_agent_state = Inl TypeError
   \<and> step (PreToolUse env3 number_prompt_call) one_agent_state = one_agent_state"
proof -
  let ?st' = "step (PreToolUse env3 task_call) one_agent_state"
  have h1: "currentSessionId (ctx one_agent_state) = Some (generateId env1)"
    by code_simp
  have h2: "generateId env1 \<noteq> []"
    by simp
  have h3: "hook_tool_name task_call = ''Task''"
    by (simp add: task_call_def hook_tool_name_def)
  have h3': "hook_tool_name number_prompt_call = ''Task''"
    by (simp add: number_prompt_call_def hook_tool_name_def)
  have h4: "generateId env3 \<notin> a_id ` set (agents (db one_agent_state))"
    by code_simp
  have ok: "\<not> task_input_throws (hook_tool_input task_call)"
    by code_simp
  have bad: "task_input_throws (hook_tool_input number_prompt_call)"
    by code_simp
  have pre: "pre_tool env3 task_call one_agent_state = Inr ?st'"
    by code_simp
  have small: "Suc (tool_seq (db one_agent_state)) \<le> 2 ^ 53"
    by code_simp
  from task_tool_use_attribution [OF h1 h2 h3' h4] bad
  have c9: "pre_tool env3 number_prompt_call one_agent_state = Inl TypeError"
    and c10: "step (PreToolUse env3 number_prompt_call) one_agent_state = one_agent_state"
    by (simp_all only: if_True)
  from task_tool_use_attribution [OF h1 h2 h3 h4] ok obtain st' a t where
    f: "pre_tool env3 task_call one_agent_state = Inr st'"
      "agents (db st') = agents (db one_agent_state) @ [a]"
      "tool_uses (db st') = tool_uses (db one_agent_state) @ [t]"
      "t_status t = Pending" "t_agent_id t = a_parent_agent_id a"
      "t_id t \<le> 2 ^ 53 \<longrightarrow> pendingToolUseId (ctx st') = Some (t_id t)"
      "currentAgentId (ctx st') = Some (a_id a)" "a_id a = generateId env3"
      "t_id t = Suc (tool_seq (db one_agent_state))"
    unfolding if_not_P [OF ok] by blast
  from f(6) f(9) small have f6: "pendingToolUseId (ctx st') = Some (t_id t)"
    by simp
  from f(1) [symmetric] pre have "(Inr st' :: db_error + state) = Inr ?st'"
    by (rule trans)
  then have st': "st' = ?st'"
    by (rule sum.inject(2) [THEN iffD1])
  from f(2,3) have l: "last (agents (db st')) = a" "last (tool_uses (db st')) = t"
    by simp_all
  from f(4) have c5: "t_status (last (tool_uses (db ?st'))) = Pending"
    unfolding l(2) [symmetric] st' .
  from f(5) have c6: "t_agent_id (last (tool_uses (db ?st')))
      = a_parent_agent_id (last (agents (db ?st')))"
    unfolding l [symmetric] st' .
  from f6 have c7: "pendingToolUseId (ctx ?st') = Some (t_id (last (tool_uses (db ?st'))))"
    unfolding l(2) [symmetric] st' .
  from f(7) have c8: "currentAgentId (ctx ?st') = Some (generateId env3)"
    unfolding f(8) st' .
  have c3: "map a_id (agents (db ?st')) = [generateId env2, generateId env3]"
    by code_simp
  have c4: "map t_agent_id (tool_uses (db ?st')) = [None, Some (generateId env2)]"
    by code_simp
  from h1 pre c3 c4 c5 c6 c7 c8 bad c9 c10 show ?thesis
    by (intro conjI) assumption+
qed
section \<open>The timeline\<close>

lemma timeline_where_session:
  assumes "tf_sessionId f = Some s" and "s \<noteq> []"
  shows "timeline_where f sid reading \<longleftrightarrow> sid = s \<and> within_time_range f reading"
  using assms
  by (auto simp: timeline_where_def within_time_range_def str_given_def split: option.splits)

lemma timeline_key_tool [simp]: "timeline_key (tool_entry t) = (''tool'', t_id t)"
  by (simp add: timeline_key_def tool_entry_def)

lemma timeline_key_event [simp]: "timeline_key (event_entry ev) = (''event'', e_id ev)"
  by (simp add: timeline_key_def event_entry_def)

lemma distinct_tagged:
  "distinct (map k rows) \<Longrightarrow> distinct (map (\<lambda>r. (tag, k r)) (filter P rows))"
  by (induction rows) auto

lemma distinct_timeline_union:
  assumes "distinct (map t_id (tool_uses d))" and "distinct (map e_id (events d))"
  shows "distinct (map timeline_key (timeline_union f d))"
proof -
  have "distinct (map (\<lambda>t. (''tool'', t_id t))
          (filter (\<lambda>t. timeline_where f (t_session_id t) (t_started_at t)) (tool_uses d)))"
    using assms(1) by (rule distinct_tagged)
  moreover have "distinct (map (\<lambda>ev. (''event'', e_id ev))
          (filter (\<lambda>ev. timeline_where f (e_session_id ev) (e_timestamp ev)) (events d)))"
    using assms(2) by (rule distinct_tagged)
  ultimately show ?thesis
    by (auto simp: timeline_union_def comp_def)
qed

lemma keys_timeline_union:
  assumes "tf_sessionId f = Some s" and "s \<noteq> []"
  shows "set (map timeline_key (timeline_union f d)) = spec_timeline_keys f s d"
proof -
  have "(\<lambda>t. (''tool'', t_id t)) ` {t \<in> set (tool_uses d).
          timeline_where f (t_session_id t) (t_started_at t)}
        = {(''tool'', t_id t) |t. t \<in> set (tool_uses d) \<and> t_session_id t = s \<and>
            within_time_range f (t_started_at t)}"
    unfolding timeline_where_session [OF assms] by (auto simp: image_iff)
  moreover have "(\<lambda>ev. (''event'', e_id ev)) ` {ev \<in> set (events d).
          timeline_where f (e_session_id ev) (e_timestamp ev)}
        = {(''event'', e_id ev) |ev. ev \<in> set (events d) \<and> e_session_id ev = s \<and>
            within_time_range f (e_timestamp ev)}"
    unfolding timeline_where_session [OF assms] by (auto simp: image_iff)
  ultimately show ?thesis
    by (simp add: timeline_union_def spec_timeline_keys_def image_Un)
qed

text \<open>Every row of the union is the projection of a stored row that matches.\<close>

lemma timeline_union_rows:
  assumes "tf_sessionId f = Some s" and "s \<noteq> []" and "r \<in> set (timeline_union f d)"
  shows "(\<exists>t \<in> set (tool_uses d). t_session_id t = s \<and> within_time_range f (t_started_at t) \<and>
            r = \<lparr>tl_type = ''tool'', tl_id = t_id t, tl_session_id = t_session_id t,
                 tl_agent_id = t_agent_id t, tl_name = t_tool_name t,
                 tl_timestamp = t_started_at t, tl_status = Some (t_status t),
                 tl_duration_ms = t_duration_ms t, tl_data = t_tool_input t\<rparr>)
       \<or> (\<exists>ev \<in> set (events d). e_session_id ev = s \<and> within_time_range f (e_timestamp ev) \<and>
            r = \<lparr>tl_type = ''event'', tl_id = e_id ev, tl_session_id = e_session_id ev,
                 tl_agent_id = e_agent_id ev, tl_name = e_event_type ev,
                 tl_timestamp = e_timestamp ev, tl_status = None,
                 tl_duration_ms = None, tl_data = e_event_data ev\<rparr>)"
proof -
  from assms(3) consider
    (tool) t where "t \<in> set (tool_uses d)" "timeline_where f (t_session_id t) (t_started_at t)"
      "r = tool_entry t"
  | (event) ev where "ev \<in> set (events d)" "timeline_where f (e_session_id ev) (e_timestamp ev)"
      "r = event_entry ev"
    unfolding timeline_union_def by auto
  then show ?thesis
  proof cases
    case tool
    from tool(2) have "t_session_id t = s \<and> within_time_range f (t_started_at t)"
      unfolding timeline_where_session [OF assms(1,2)] .
    with tool(1,3) show ?thesis
      unfolding tool_entry_def by blast
  next
    case event
    from event(2) have "e_session_id ev = s \<and> within_time_range f (e_timestamp ev)"
      unfolding timeline_where_session [OF assms(1,2)] .
    with event(1,3) show ?thesis
      unfolding event_entry_def by blast
  qed
qed

lemma tool_in_timeline_union:
  assumes "tf_sessionId f = Some s" and "s \<noteq> []" and "t \<in> set (tool_uses d)"
    and "t_session_id t = s" and "within_time_range f (t_started_at t)"
  shows "tool_entry t \<in> set (timeline_union f d)"
  using assms(3-5) unfolding timeline_union_def timeline_where_session [OF assms(1,2)] by simp

lemma event_in_timeline_union:
  assumes "tf_sessionId f = Some s" and "s \<noteq> []" and "ev \<in> set (events d)"
    and "e_session_id ev = s" and "within_time_range f (e_timestamp ev)"
  shows "event_entry ev \<in> set (timeline_union f d)"
  using assms(3-5) unfolding timeline_union_def timeline_where_session [OF assms(1,2)] by simp

lemma length_getTimeline:
  "length (getTimeline f d)
     = (if num_or (tf_limit f) 200 < 0 then length (timeline_union f d)
        else min (nat (num_or (tf_limit f) 200)) (length (timeline_union f d)))"
  by (simp add: getTimeline_def limit_offset_zero min.commute)

text \<open>The store of 201 events: all of them belong to the session.\<close>

lemma many_events_union:
  "timeline_union session_2b many_events = map event_entry (events many_events)"
proof -
  have "\<forall>ev \<in> set (events many_events).
          timeline_where session_2b (e_session_id ev) (e_timestamp ev)"
    by (auto simp: many_events_def empty_db_def timeline_where_def session_2b_def str_given_def)
  then have "filter (\<lambda>ev. timeline_where session_2b (e_session_id ev) (e_timestamp ev))
      (events many_events) = events many_events"
    by (simp add: filter_id_conv)
  moreover have "tool_uses many_events = []"
    by (simp add: many_events_def empty_db_def)
  ultimately show ?thesis
    by (simp add: timeline_union_def)
qed

lemma many_events_ids: "map e_id (events many_events) = [1 ..< 202]"
  by (simp add: many_events_def empty_db_def comp_def map_idI)

lemma many_events_length: "length (events many_events) = 201"
  using arg_cong [OF many_events_ids, of length] by simp

lemma sorted_wrt_take_drop:
  assumes "sorted_wrt R rows" and "x \<in> set (take n rows)" and "y \<in> set (drop n rows)"
  shows "R x y"
proof -
  have "sorted_wrt R (take n rows @ drop n rows)"
    using assms(1) by simp
  then show ?thesis
    using assms(2,3) unfolding sorted_wrt_append by blast
qed

lemma distinct_map_take_drop:
  assumes "distinct (map g rows)" and "x \<in> set rows" and "g x \<notin> g ` set (take n rows)"
  shows "x \<in> set (drop n rows)"
proof -
  have "set rows = set (take n rows) \<union> set (drop n rows)"
    by (metis append_take_drop_id set_append)
  with assms(2,3) show ?thesis by auto
qed



text \<open>
  Claim C2 as stated fails: the timeline of a session is cut to a limit even when the
  caller gives none. In the store of 201 events of session \<open>2-b\<close>, all with different
  primary keys, the query that names only the session returns 200 rows, so it does not
  return the union of the matching keys.
\<close>

theorem timeline_sorted_union_counterexample:
  "tf_limit session_2b = None
   \<and> distinct (map e_id (events many_events))
   \<and> length (filter (\<lambda>ev. e_session_id ev = ''2-b'') (events many_events)) = 201
   \<and> card (spec_timeline_keys session_2b ''2-b'' many_events) = 201
   \<and> length (getTimeline session_2b many_events) = 200
   \<and> set (map timeline_key (getTimeline session_2b many_events))
       \<noteq> spec_timeline_keys session_2b ''2-b'' many_events"
proof -
  have s: "tf_sessionId session_2b = Some ''2-b''" "''2-b'' \<noteq> []"
    by (simp_all add: session_2b_def)
  have c1: "tf_limit session_2b = None"
    by (simp add: session_2b_def)
  have c2: "distinct (map e_id (events many_events))"
    unfolding many_events_ids by simp
  have "\<forall>ev \<in> set (events many_events). e_session_id ev = ''2-b''"
    by (auto simp: many_events_def empty_db_def)
  then have "filter (\<lambda>ev. e_session_id ev = ''2-b'') (events many_events) = events many_events"
    by (simp add: filter_id_conv)
  then have c3: "length (filter (\<lambda>ev. e_session_id ev = ''2-b'') (events many_events)) = 201"
    by (simp add: many_events_length)
  have len: "length (timeline_union session_2b many_events) = 201"
    by (simp add: many_events_union many_events_length)
  have "distinct (map t_id (tool_uses many_events))"
    by (simp add: many_events_def empty_db_def)
  then have "distinct (map timeline_key (timeline_union session_2b many_events))"
    using c2 by (rule distinct_timeline_union)
  then have "card (set (map timeline_key (timeline_union session_2b many_events)))
      = length (map timeline_key (timeline_union session_2b many_events))"
    by (rule distinct_card)
  then have "card (set (map timeline_key (timeline_union session_2b many_events))) = 201"
    unfolding length_map len .
  then have c4: "card (spec_timeline_keys session_2b ''2-b'' many_events) = 201"
    unfolding keys_timeline_union [OF s] .
  have c5: "length (getTimeline session_2b many_events) = 200"
    unfolding length_getTimeline len by (simp add: session_2b_def num_or_def)
  have "card (set (map timeline_key (getTimeline session_2b many_events)))
      \<le> length (map timeline_key (getTimeline session_2b many_events))"
    by (rule card_length)
  with c5 have "card (set (map timeline_key (getTimeline session_2b many_events))) \<le> 200"
    by simp
  with c4 have c6: "set (map timeline_key (getTimeline session_2b many_events))
       \<noteq> spec_timeline_keys session_2b ''2-b'' many_events"
    by auto
  from c1 c2 c3 c4 c5 c6 show ?thesis
    by (intro conjI) assumption+
qed

text \<open>
  Claim C2, amended. For a session \<open>s\<close> (a non-empty id) and any store whose tables have
  distinct primary keys: the rows that make up the timeline before the limit are exactly
  the tool uses and events of \<open>s\<close> within the time range, the same test on both tables,
  where a time bound is a text that is compared with the stored text of a reading. The
  timeline is that list sorted by timestamp, newest first, and cut to the limit (200 when
  none is given, none when it is negative). It has no duplicates; every row of it is the
  projection of a stored tool use or event of \<open>s\<close> within the time range, with the columns
  of that row; it has the keys of the whole union exactly when the union fits within the
  limit, and otherwise the stored rows that it leaves out are no newer than any row it
  returns.
\<close>

theorem timeline_sorted_union:
  assumes "tf_sessionId f = Some s" and "s \<noteq> []"
    and "distinct (map t_id (tool_uses d))" and "distinct (map e_id (events d))"
  shows "sorted_wrt (\<lambda>a b. tl_timestamp b \<le> tl_timestamp a) (getTimeline f d)
     \<and> distinct (map timeline_key (getTimeline f d))
     \<and> (\<forall>r \<in> set (getTimeline f d).
          (\<exists>t \<in> set (tool_uses d). t_session_id t = s \<and> within_time_range f (t_started_at t) \<and>
             r = \<lparr>tl_type = ''tool'', tl_id = t_id t, tl_session_id = t_session_id t,
                  tl_agent_id = t_agent_id t, tl_name = t_tool_name t,
                  tl_timestamp = t_started_at t, tl_status = Some (t_status t),
                  tl_duration_ms = t_duration_ms t, tl_data = t_tool_input t\<rparr>)
        \<or> (\<exists>ev \<in> set (events d). e_session_id ev = s \<and> within_time_range f (e_timestamp ev) \<and>
             r = \<lparr>tl_type = ''event'', tl_id = e_id ev, tl_session_id = e_session_id ev,
                  tl_agent_id = e_agent_id ev, tl_name = e_event_type ev,
                  tl_timestamp = e_timestamp ev, tl_status = None,
                  tl_duration_ms = None, tl_data = e_event_data ev\<rparr>))
     \<and> set (map timeline_key (getTimeline f d)) \<subseteq> spec_timeline_keys f s d
     \<and> set (map timeline_key (timeline_union f d)) = spec_timeline_keys f s d
     \<and> length (getTimeline f d)
          = (if num_or (tf_limit f) 200 < 0 then card (spec_timeline_keys f s d)
             else min (nat (num_or (tf_limit f) 200)) (card (spec_timeline_keys f s d)))
     \<and> (set (map timeline_key (getTimeline f d)) = spec_timeline_keys f s d
          \<longleftrightarrow> num_or (tf_limit f) 200 < 0
            \<or> card (spec_timeline_keys f s d) \<le> nat (num_or (tf_limit f) 200))
     \<and> (\<forall>t \<in> set (tool_uses d).
            t_session_id t = s \<and> within_time_range f (t_started_at t) \<and>
            (''tool'', t_id t) \<notin> set (map timeline_key (getTimeline f d)) \<longrightarrow>
            (\<forall>r' \<in> set (getTimeline f d). t_started_at t \<le> tl_timestamp r'))
     \<and> (\<forall>ev \<in> set (events d).
            e_session_id ev = s \<and> within_time_range f (e_timestamp ev) \<and>
            (''event'', e_id ev) \<notin> set (map timeline_key (getTimeline f d)) \<longrightarrow>
            (\<forall>r' \<in> set (getTimeline f d). e_timestamp ev \<le> tl_timestamp r'))"
proof -
  let ?U = "timeline_union f d"
  let ?S = "order_by_desc tl_timestamp ?U"
  let ?L = "num_or (tf_limit f) 200"
  let ?K = "spec_timeline_keys f s d"
  have tl: "getTimeline f d = (if ?L < 0 then ?S else take (nat ?L) ?S)"
    by (simp add: getTimeline_def limit_offset_zero)
  have sub: "set (getTimeline f d) \<subseteq> set ?U"
    using set_limit_offset [of ?L 0 ?S] by (simp add: getTimeline_def)
  have sortedS: "sorted_wrt (\<lambda>a b. tl_timestamp b \<le> tl_timestamp a) ?S"
    by (rule sorted_order_by_desc)
  have distU: "distinct (map timeline_key ?U)"
    using assms(3,4) by (rule distinct_timeline_union)
  then have distS: "distinct (map timeline_key ?S)"
    by (simp add: distinct_map_order_by_desc)
  have keysU: "set (map timeline_key ?U) = ?K"
    using assms(1,2) by (rule keys_timeline_union)
  then have keysS: "set (map timeline_key ?S) = ?K"
    by simp
  have card: "card ?K = length ?S"
    using distinct_card [OF distS] keysS by simp
  have c1: "sorted_wrt (\<lambda>a b. tl_timestamp b \<le> tl_timestamp a) (getTimeline f d)"
    using sortedS by (simp add: tl sorted_wrt_take)
  have c2: "distinct (map timeline_key (getTimeline f d))"
    using distS distinct_map_limit_offset [of timeline_key ?S ?L 0]
    by (simp add: getTimeline_def)
  have cp: "\<forall>r \<in> set (getTimeline f d).
          (\<exists>t \<in> set (tool_uses d). t_session_id t = s \<and> within_time_range f (t_started_at t) \<and>
             r = \<lparr>tl_type = ''tool'', tl_id = t_id t, tl_session_id = t_session_id t,
                  tl_agent_id = t_agent_id t, tl_name = t_tool_name t,
                  tl_timestamp = t_started_at t, tl_status = Some (t_status t),
                  tl_duration_ms = t_duration_ms t, tl_data = t_tool_input t\<rparr>)
        \<or> (\<exists>ev \<in> set (events d). e_session_id ev = s \<and> within_time_range f (e_timestamp ev) \<and>
             r = \<lparr>tl_type = ''event'', tl_id = e_id ev, tl_session_id = e_session_id ev,
                  tl_agent_id = e_agent_id ev, tl_name = e_event_type ev,
                  tl_timestamp = e_timestamp ev, tl_status = None,
                  tl_duration_ms = None, tl_data = e_event_data ev\<rparr>)"
  proof
    fix r
    assume "r \<in> set (getTimeline f d)"
    with sub have "r \<in> set ?U" by (rule subsetD)
    with assms(1,2) show "(\<exists>t \<in> set (tool_uses d). t_session_id t = s \<and> within_time_range f (t_started_at t) \<and>
             r = \<lparr>tl_type = ''tool'', tl_id = t_id t, tl_session_id = t_session_id t,
                  tl_agent_id = t_agent_id t, tl_name = t_tool_name t,
                  tl_timestamp = t_started_at t, tl_status = Some (t_status t),
                  tl_duration_ms = t_duration_ms t, tl_data = t_tool_input t\<rparr>)
        \<or> (\<exists>ev \<in> set (events d). e_session_id ev = s \<and> within_time_range f (e_timestamp ev) \<and>
             r = \<lparr>tl_type = ''event'', tl_id = e_id ev, tl_session_id = e_session_id ev,
                  tl_agent_id = e_agent_id ev, tl_name = e_event_type ev,
                  tl_timestamp = e_timestamp ev, tl_status = None,
                  tl_duration_ms = None, tl_data = e_event_data ev\<rparr>)"
      by (rule timeline_union_rows)
  qed
  have c3: "set (map timeline_key (getTimeline f d)) \<subseteq> ?K"
    using keysS set_limit_offset [of ?L 0 ?S] by (auto simp: getTimeline_def)
  have c5: "length (getTimeline f d) = (if ?L < 0 then card ?K else min (nat ?L) (card ?K))"
    by (simp add: tl card min.commute)
  have c6: "set (map timeline_key (getTimeline f d)) = ?K \<longleftrightarrow> ?L < 0 \<or> card ?K \<le> nat ?L"
  proof
    assume "?L < 0 \<or> card ?K \<le> nat ?L"
    then show "set (map timeline_key (getTimeline f d)) = ?K"
      using keysS by (auto simp: tl card)
  next
    assume eq: "set (map timeline_key (getTimeline f d)) = ?K"
    have "card (set (map timeline_key (getTimeline f d))) = length (getTimeline f d)"
      using distinct_card [OF c2] by simp
    with eq have "length (getTimeline f d) = card ?K" by simp
    with c5 show "?L < 0 \<or> card ?K \<le> nat ?L"
      by (simp split: if_splits)
  qed
  have c7: "tl_timestamp r \<le> tl_timestamp r'"
    if r: "r \<in> set ?U" and out: "timeline_key r \<notin> set (map timeline_key (getTimeline f d))"
      and r': "r' \<in> set (getTimeline f d)" for r r'
  proof (cases "?L < 0")
    case True
    with r out show ?thesis by (simp add: tl)
  next
    case False
    from r have "r \<in> set ?S" by simp
    moreover from out False have "timeline_key r \<notin> timeline_key ` set (take (nat ?L) ?S)"
      by (simp add: tl)
    ultimately have "r \<in> set (drop (nat ?L) ?S)"
      using distS by (rule distinct_map_take_drop [rotated])
    moreover from r' False have "r' \<in> set (take (nat ?L) ?S)"
      by (simp add: tl)
    ultimately show ?thesis
      using sorted_wrt_take_drop [OF sortedS] by blast
  qed
  have c8: "\<forall>t \<in> set (tool_uses d).
            t_session_id t = s \<and> within_time_range f (t_started_at t) \<and>
            (''tool'', t_id t) \<notin> set (map timeline_key (getTimeline f d)) \<longrightarrow>
            (\<forall>r' \<in> set (getTimeline f d). t_started_at t \<le> tl_timestamp r')"
  proof (intro ballI impI)
    fix t r'
    assume t: "t \<in> set (tool_uses d)"
      and m: "t_session_id t = s \<and> within_time_range f (t_started_at t) \<and>
            (''tool'', t_id t) \<notin> set (map timeline_key (getTimeline f d))"
      and r': "r' \<in> set (getTimeline f d)"
    from assms(1,2) t m have "tool_entry t \<in> set ?U"
      by (intro tool_in_timeline_union) simp_all
    moreover from m have "timeline_key (tool_entry t) \<notin> set (map timeline_key (getTimeline f d))"
      by simp
    ultimately have "tl_timestamp (tool_entry t) \<le> tl_timestamp r'"
      using r' by (rule c7)
    then show "t_started_at t \<le> tl_timestamp r'"
      by (simp add: tool_entry_def)
  qed
  have c9: "\<forall>ev \<in> set (events d).
            e_session_id ev = s \<and> within_time_range f (e_timestamp ev) \<and>
            (''event'', e_id ev) \<notin> set (map timeline_key (getTimeline f d)) \<longrightarrow>
            (\<forall>r' \<in> set (getTimeline f d). e_timestamp ev \<le> tl_timestamp r')"
  proof (intro ballI impI)
    fix ev r'
    assume ev: "ev \<in> set (events d)"
      and m: "e_session_id ev = s \<and> within_time_range f (e_timestamp ev) \<and>
            (''event'', e_id ev) \<notin> set (map timeline_key (getTimeline f d))"
      and r': "r' \<in> set (getTimeline f d)"
    from assms(1,2) ev m have "event_entry ev \<in> set ?U"
      by (intro event_in_timeline_union) simp_all
    moreover from m have "timeline_key (event_entry ev) \<notin> set (map timeline_key (getTimeline f d))"
      by simp
    ultimately have "tl_timestamp (event_entry ev) \<le> tl_timestamp r'"
      using r' by (rule c7)
    then show "e_timestamp ev \<le> tl_timestamp r'"
      by (simp add: event_entry_def)
  qed
  from c1 c2 cp c3 keysU c5 c6 c8 c9 show ?thesis
    by (intro conjI) assumption+
qed

text \<open>In the example store, session \<open>2-b\<close> has tool uses 2 and 3 and events 2 and 3. With
  the limit 2 the two events are returned, the newest rows; with no limit given, all
  four. A lower bound in the format of the store selects the rows from that second on; a
  lower bound of the same day in the ISO format with a \<open>T\<close> selects none, because the
  texts are compared and the blank of the stored text is below the \<open>T\<close>.\<close>

theorem timeline_sorted_union_witness:
  "getTimeline session_2b_newest_two example_store
     = [\<lparr>tl_type = ''event'', tl_id = 3, tl_session_id = ''2-b'', tl_agent_id = Some ''4-d'',
         tl_name = ''turn_complete'', tl_timestamp = 9995, tl_status = None,
         tl_duration_ms = None, tl_data = None\<rparr>,
        \<lparr>tl_type = ''event'', tl_id = 2, tl_session_id = ''2-b'', tl_agent_id = Some ''4-d'',
         tl_name = ''agent_start'', tl_timestamp = 9991, tl_status = None,
         tl_duration_ms = None, tl_data = None\<rparr>]
   \<and> spec_timeline_keys session_2b_newest_two ''2-b'' example_store
       = {(''tool'', 2), (''tool'', 3), (''event'', 2), (''event'', 3)}
   \<and> sorted_wrt (\<lambda>a b. tl_timestamp b \<le> tl_timestamp a)
       (getTimeline session_2b_newest_two example_store)
   \<and> distinct (map timeline_key (getTimeline session_2b_newest_two example_store))
   \<and> t_started_at (tool_uses example_store ! 2)
       \<le> tl_timestamp (getTimeline session_2b_newest_two example_store ! 1)
   \<and> set (map timeline_key (getTimeline session_2b example_store))
       = {(''tool'', 2), (''tool'', 3), (''event'', 2), (''event'', 3)}
   \<and> map timeline_key (getTimeline session_2b_since example_store)
       = [(''event'', 3), (''event'', 2), (''tool'', 3)]
   \<and> spec_timeline_keys session_2b_since ''2-b'' example_store
       = {(''tool'', 3), (''event'', 2), (''event'', 3)}
   \<and> getTimeline session_2b_since_iso example_store = []
   \<and> spec_timeline_keys session_2b_since_iso ''2-b'' example_store = {}"
proof -
  let ?f = session_2b_newest_two
  let ?g = session_2b
  let ?h = session_2b_since
  let ?i = session_2b_since_iso
  have s: "tf_sessionId ?f = Some ''2-b''" "tf_sessionId ?g = Some ''2-b''"
    "tf_sessionId ?h = Some ''2-b''" "tf_sessionId ?i = Some ''2-b''"
    by (simp_all add: session_2b_newest_two_def session_2b_since_def session_2b_since_iso_def
        session_2b_def)
  have ne: "''2-b'' \<noteq> []"
    by simp
  have h3: "distinct (map t_id (tool_uses example_store))"
    and h4: "distinct (map e_id (events example_store))"
    by (simp_all add: example_store_def)
  note tf = timeline_sorted_union [OF s(1) ne h3 h4]
  note tg = timeline_sorted_union [OF s(2) ne h3 h4]
  note th = timeline_sorted_union [OF s(3) ne h3 h4]
  note ti = timeline_sorted_union [OF s(4) ne h3 h4]
  have rows: "getTimeline ?f example_store
     = [\<lparr>tl_type = ''event'', tl_id = 3, tl_session_id = ''2-b'', tl_agent_id = Some ''4-d'',
         tl_name = ''turn_complete'', tl_timestamp = 9995, tl_status = None,
         tl_duration_ms = None, tl_data = None\<rparr>,
        \<lparr>tl_type = ''event'', tl_id = 2, tl_session_id = ''2-b'', tl_agent_id = Some ''4-d'',
         tl_name = ''agent_start'', tl_timestamp = 9991, tl_status = None,
         tl_duration_ms = None, tl_data = None\<rparr>]"
    by code_simp
  have uf: "map timeline_key (timeline_union ?f example_store)
      = [(''tool'', 2), (''tool'', 3), (''event'', 2), (''event'', 3)]"
    by code_simp
  have kf: "spec_timeline_keys ?f ''2-b'' example_store
      = {(''tool'', 2), (''tool'', 3), (''event'', 2), (''event'', 3)}"
    using tf [THEN conjunct2, THEN conjunct2, THEN conjunct2, THEN conjunct2, THEN conjunct1] uf
    by simp
  text \<open>The third tool use is left out by the limit, and is no newer than what is returned.\<close>
  have t: "tool_uses example_store ! 2 \<in> set (tool_uses example_store)"
    by (simp add: example_store_def)
  have out: "t_session_id (tool_uses example_store ! 2) = ''2-b'' \<and>
      within_time_range ?f (t_started_at (tool_uses example_store ! 2)) \<and>
      (''tool'', t_id (tool_uses example_store ! 2))
        \<notin> set (map timeline_key (getTimeline ?f example_store))"
    unfolding rows
    by (simp add: example_store_def within_time_range_def session_2b_newest_two_def
        session_2b_def timeline_key_def)
  have r': "getTimeline ?f example_store ! 1 \<in> set (getTimeline ?f example_store)"
    unfolding rows by simp
  note tf [THEN conjunct2, THEN conjunct2, THEN conjunct2, THEN conjunct2, THEN conjunct2,
      THEN conjunct2, THEN conjunct2, THEN conjunct1, THEN bspec, OF t, THEN mp, OF out,
      THEN bspec, OF r']
  then have old: "t_started_at (tool_uses example_store ! 2)
       \<le> tl_timestamp (getTimeline ?f example_store ! 1)" .
  text \<open>With the default limit the whole union is returned.\<close>
  have ug: "map timeline_key (timeline_union ?g example_store)
      = [(''tool'', 2), (''tool'', 3), (''event'', 2), (''event'', 3)]"
    by code_simp
  have kg: "spec_timeline_keys ?g ''2-b'' example_store
      = {(''tool'', 2), (''tool'', 3), (''event'', 2), (''event'', 3)}"
    using tg [THEN conjunct2, THEN conjunct2, THEN conjunct2, THEN conjunct2, THEN conjunct1] ug
    by simp
  have "card {(''tool'', 2::nat), (''tool'', 3), (''event'', 2), (''event'', 3)} \<le> 200"
    by (simp add: card_insert_if)
  then have fits: "num_or (tf_limit ?g) 200 < 0
      \<or> card (spec_timeline_keys ?g ''2-b'' example_store) \<le> nat (num_or (tf_limit ?g) 200)"
    unfolding kg by (simp add: num_or_def session_2b_def)
  note tg [THEN conjunct2, THEN conjunct2, THEN conjunct2, THEN conjunct2, THEN conjunct2,
      THEN conjunct2, THEN conjunct1, THEN iffD2, OF fits]
  then have all: "set (map timeline_key (getTimeline ?g example_store))
      = {(''tool'', 2), (''tool'', 3), (''event'', 2), (''event'', 3)}"
    unfolding kg .
  text \<open>The lower bounds.\<close>
  have since: "map timeline_key (getTimeline ?h example_store)
       = [(''event'', 3), (''event'', 2), (''tool'', 3)]"
    by code_simp
  have uh: "map timeline_key (timeline_union ?h example_store)
      = [(''tool'', 3), (''event'', 2), (''event'', 3)]"
    by code_simp
  have kh: "spec_timeline_keys ?h ''2-b'' example_store
      = {(''tool'', 3), (''event'', 2), (''event'', 3)}"
    using th [THEN conjunct2, THEN conjunct2, THEN conjunct2, THEN conjunct2, THEN conjunct1] uh
    by simp
  have iso: "getTimeline ?i example_store = []"
    by code_simp
  have ui: "map timeline_key (timeline_union ?i example_store) = []"
    by code_simp
  have ki: "spec_timeline_keys ?i ''2-b'' example_store = {}"
    using ti [THEN conjunct2, THEN conjunct2, THEN conjunct2, THEN conjunct2, THEN conjunct1] ui
    by simp
  from rows kf tf [THEN conjunct1] tf [THEN conjunct2, THEN conjunct1] old all since kh iso ki
  show ?thesis
    by (intro conjI) assumption+
qed
section \<open>Deleting sessions\<close>

lemma getToolUses_subset:
  "t \<in> set (getToolUses f d) \<Longrightarrow> t \<in> set (tool_uses d) \<and> tool_use_where f t"
  using set_limit_offset [of "num_or (tuf_limit f) 100" "num_or (tuf_offset f) 0"
      "order_by_desc t_started_at (filter (tool_use_where f) (tool_uses d))"]
  by (auto simp: getToolUses_def)

lemma getEvents_subset:
  "ev \<in> set (getEvents f d) \<Longrightarrow> ev \<in> set (events d) \<and> event_where f ev"
  using set_limit_offset [of "num_or (ef_limit f) 100" 0
      "order_by_desc e_timestamp (filter (event_where f) (events d))"]
  by (auto simp: getEvents_def)

lemma getAgents_subset:
  assumes "a \<in> set (getAgents sessionId l d)"
  shows "a \<in> set (agents d) \<and> (str_given sessionId \<longrightarrow> Some (a_session_id a) = sessionId)"
proof (cases "str_given sessionId")
  case True
  with assms set_limit_offset [of l 0
      "order_by_desc a_started_at (filter (\<lambda>a. Some (a_session_id a) = sessionId) (agents d))"]
  show ?thesis by (auto simp: getAgents_def)
next
  case False
  with assms set_limit_offset [of l 0 "order_by_desc a_started_at (agents d)"]
  show ?thesis by (auto simp: getAgents_def)
qed

lemma getSessions_subset: "s \<in> set (getSessions l off br d) \<Longrightarrow> s \<in> set (sessions d)"
  using set_limit_offset [of l off "order_by_desc s_started_at (sessions d)"]
    set_limit_offset [of l off
      "order_by_desc s_started_at (filter (\<lambda>s. s_git_branch s = br) (sessions d))"]
  by (auto simp: getSessions_def split: if_splits)

lemma deleteSessions_tables:
  "sessionIds \<noteq> [] \<Longrightarrow>
     tool_uses (deleteSessions sessionIds d)
       = filter (\<lambda>t. t_session_id t \<notin> set sessionIds) (tool_uses d)
   \<and> events (deleteSessions sessionIds d)
       = filter (\<lambda>e. e_session_id e \<notin> set sessionIds) (events d)
   \<and> agents (deleteSessions sessionIds d)
       = filter (\<lambda>a. a_session_id a \<notin> set sessionIds) (agents d)
   \<and> sessions (deleteSessions sessionIds d)
       = filter (\<lambda>s. s_id s \<notin> set sessionIds) (sessions d)"
  by (simp add: deleteSessions_def Let_def)

lemma deleteSessions_no_rows:
  assumes "sid \<in> set sessionIds"
  shows "(\<forall>t \<in> set (tool_uses (deleteSessions sessionIds d)). t_session_id t \<noteq> sid)"
    and "(\<forall>ev \<in> set (events (deleteSessions sessionIds d)). e_session_id ev \<noteq> sid)"
    and "(\<forall>a \<in> set (agents (deleteSessions sessionIds d)). a_session_id a \<noteq> sid)"
    and "(\<forall>s \<in> set (sessions (deleteSessions sessionIds d)). s_id s \<noteq> sid)"
proof -
  from assms have ne: "sessionIds \<noteq> []" by auto
  show "(\<forall>t \<in> set (tool_uses (deleteSessions sessionIds d)). t_session_id t \<noteq> sid)"
    using assms deleteSessions_tables [OF ne, of d] by auto
  show "(\<forall>ev \<in> set (events (deleteSessions sessionIds d)). e_session_id ev \<noteq> sid)"
    using assms deleteSessions_tables [OF ne, of d] by auto
  show "(\<forall>a \<in> set (agents (deleteSessions sessionIds d)). a_session_id a \<noteq> sid)"
    using assms deleteSessions_tables [OF ne, of d] by auto
  show "(\<forall>s \<in> set (sessions (deleteSessions sessionIds d)). s_id s \<noteq> sid)"
    using assms deleteSessions_tables [OF ne, of d] by auto
qed

lemma deleteSessions_queries_empty:
  assumes "sid \<in> set sessionIds" and "sid \<noteq> []"
  shows "getToolUses (f\<lparr>tuf_sessionId := Some sid\<rparr>) (deleteSessions sessionIds d) = []"
    and "getEvents (g\<lparr>ef_sessionId := Some sid\<rparr>) (deleteSessions sessionIds d) = []"
    and "getAgents (Some sid) l (deleteSessions sessionIds d) = []"
    and "filter (\<lambda>s. s_id s = sid) (getSessions l' off br (deleteSessions sessionIds d)) = []"
proof -
  let ?d = "deleteSessions sessionIds d"
  note none = deleteSessions_no_rows [OF assms(1), of d]
  have "filter (tool_use_where (f\<lparr>tuf_sessionId := Some sid\<rparr>)) (tool_uses ?d) = []"
    using none(1) assms(2) by (auto simp: filter_empty_conv tool_use_where_def str_given_def)
  then show "getToolUses (f\<lparr>tuf_sessionId := Some sid\<rparr>) ?d = []"
    by (simp add: getToolUses_def order_by_desc_def)
  have "filter (event_where (g\<lparr>ef_sessionId := Some sid\<rparr>)) (events ?d) = []"
    using none(2) assms(2) by (auto simp: filter_empty_conv event_where_def str_given_def)
  then show "getEvents (g\<lparr>ef_sessionId := Some sid\<rparr>) ?d = []"
    by (simp add: getEvents_def order_by_desc_def)
  have "filter (\<lambda>a. Some (a_session_id a) = Some sid) (agents ?d) = []"
    using none(3) by (auto simp: filter_empty_conv)
  then show "getAgents (Some sid) l ?d = []"
    using assms(2) by (simp add: getAgents_def order_by_desc_def str_given_def)
  show "filter (\<lambda>s. s_id s = sid) (getSessions l' off br ?d) = []"
    using none(4) getSessions_subset [of _ l' off br ?d] by (auto simp: filter_empty_conv)
qed

lemma deleteSessions_keeps_references:
  assumes "\<forall>t \<in> set (tool_uses d). t_session_id t \<in> s_id ` set (sessions d)"
    and "\<forall>ev \<in> set (events d). e_session_id ev \<in> s_id ` set (sessions d)"
    and "\<forall>a \<in> set (agents d). a_session_id a \<in> s_id ` set (sessions d)"
  shows "(\<forall>t \<in> set (tool_uses (deleteSessions ids d)).
            t_session_id t \<in> s_id ` set (sessions (deleteSessions ids d)))
       \<and> (\<forall>ev \<in> set (events (deleteSessions ids d)).
            e_session_id ev \<in> s_id ` set (sessions (deleteSessions ids d)))
       \<and> (\<forall>a \<in> set (agents (deleteSessions ids d)).
            a_session_id a \<in> s_id ` set (sessions (deleteSessions ids d)))"
proof (cases "ids = []")
  case True
  with assms show ?thesis by (simp add: deleteSessions_def)
next
  case False
  note tabs = deleteSessions_tables [OF False, of d]
  have "\<forall>t \<in> set (tool_uses (deleteSessions ids d)).
            t_session_id t \<in> s_id ` set (sessions (deleteSessions ids d))"
    using tabs assms(1) by (fastforce simp: image_iff)
  moreover have "\<forall>ev \<in> set (events (deleteSessions ids d)).
            e_session_id ev \<in> s_id ` set (sessions (deleteSessions ids d))"
    using tabs assms(2) by (fastforce simp: image_iff)
  moreover have "\<forall>a \<in> set (agents (deleteSessions ids d)).
            a_session_id a \<in> s_id ` set (sessions (deleteSessions ids d))"
    using tabs assms(3) by (fastforce simp: image_iff)
  ultimately show ?thesis by blast
qed

text \<open>
  Claim C6. Deleting a list of sessions removes every tool use, event and agent owned by
  one of them and the session rows themselves, by four deletions in the order tool uses,
  events, agents, sessions, so that rows which referred to an existing session before
  still do afterwards; rows of other sessions stay. Afterwards the queries for tool uses,
  events and agents filtered by a deleted id return nothing and no listed session has that
  id (a filter takes effect when the id is not the empty text).
\<close>

theorem delete_sessions_cascade:
  assumes "sid \<in> set sessionIds"
  shows "(\<forall>t \<in> set (tool_uses (deleteSessions sessionIds d)). t_session_id t \<noteq> sid)
     \<and> (\<forall>ev \<in> set (events (deleteSessions sessionIds d)). e_session_id ev \<noteq> sid)
     \<and> (\<forall>a \<in> set (agents (deleteSessions sessionIds d)). a_session_id a \<noteq> sid)
     \<and> (\<forall>s \<in> set (sessions (deleteSessions sessionIds d)). s_id s \<noteq> sid)
     \<and> tool_uses (deleteSessions sessionIds d)
           = filter (\<lambda>t. t_session_id t \<notin> set sessionIds) (tool_uses d)
     \<and> events (deleteSessions sessionIds d)
           = filter (\<lambda>e. e_session_id e \<notin> set sessionIds) (events d)
     \<and> agents (deleteSessions sessionIds d)
           = filter (\<lambda>a. a_session_id a \<notin> set sessionIds) (agents d)
     \<and> sessions (deleteSessions sessionIds d)
           = filter (\<lambda>s. s_id s \<notin> set sessionIds) (sessions d)
     \<and> (sid \<noteq> [] \<longrightarrow>
           getToolUses (f\<lparr>tuf_sessionId := Some sid\<rparr>) (deleteSessions sessionIds d) = []
         \<and> getEvents (g\<lparr>ef_sessionId := Some sid\<rparr>) (deleteSessions sessionIds d) = []
         \<and> getAgents (Some sid) l (deleteSessions sessionIds d) = []
         \<and> filter (\<lambda>s. s_id s = sid) (getSessions l' off br (deleteSessions sessionIds d)) = [])
     \<and> ((\<forall>t \<in> set (tool_uses d). t_session_id t \<in> s_id ` set (sessions d))
          \<and> (\<forall>ev \<in> set (events d). e_session_id ev \<in> s_id ` set (sessions d))
          \<and> (\<forall>a \<in> set (agents d). a_session_id a \<in> s_id ` set (sessions d))
        \<longrightarrow>
          (\<forall>t \<in> set (tool_uses (deleteSessions sessionIds d)).
             t_session_id t \<in> s_id ` set (sessions (deleteSessions sessionIds d)))
          \<and> (\<forall>ev \<in> set (events (deleteSessions sessionIds d)).
             e_session_id ev \<in> s_id ` set (sessions (deleteSessions sessionIds d)))
          \<and> (\<forall>a \<in> set (agents (deleteSessions sessionIds d)).
             a_session_id a \<in> s_id ` set (sessions (deleteSessions sessionIds d))))"
proof -
  from assms have ne: "sessionIds \<noteq> []" by auto
  note a = deleteSessions_no_rows [OF assms, of d]
  note b = deleteSessions_tables [OF ne, of d]
  have c: "sid \<noteq> [] \<longrightarrow>
           getToolUses (f\<lparr>tuf_sessionId := Some sid\<rparr>) (deleteSessions sessionIds d) = []
         \<and> getEvents (g\<lparr>ef_sessionId := Some sid\<rparr>) (deleteSessions sessionIds d) = []
         \<and> getAgents (Some sid) l (deleteSessions sessionIds d) = []
         \<and> filter (\<lambda>s. s_id s = sid) (getSessions l' off br (deleteSessions sessionIds d)) = []"
  proof
    assume "sid \<noteq> []"
    from deleteSessions_queries_empty [OF assms this] show
       "getToolUses (f\<lparr>tuf_sessionId := Some sid\<rparr>) (deleteSessions sessionIds d) = []
         \<and> getEvents (g\<lparr>ef_sessionId := Some sid\<rparr>) (deleteSessions sessionIds d) = []
         \<and> getAgents (Some sid) l (deleteSessions sessionIds d) = []
         \<and> filter (\<lambda>s. s_id s = sid) (getSessions l' off br (deleteSessions sessionIds d)) = []"
      by blast
  qed
  note e = deleteSessions_keeps_references [of d sessionIds]
  from a b c e show ?thesis
    by (intro conjI impI) (assumption | blast)+
qed


theorem delete_sessions_cascade_witness:
  "map t_id (tool_uses example_store) = [1, 2, 3]
   \<and> map t_id (tool_uses (deleteSessions [''1-a''] example_store)) = [2, 3]
   \<and> map e_id (events (deleteSessions [''1-a''] example_store)) = [2, 3]
   \<and> map a_id (agents (deleteSessions [''1-a''] example_store)) = [''4-d'']
   \<and> map s_id (sessions (deleteSessions [''1-a''] example_store)) = [''2-b'']
   \<and> getToolUses \<lparr>tuf_sessionId = Some ''1-a'', tuf_agentId = None, tuf_toolName = None,
        tuf_status = None, tuf_limit = None, tuf_offset = None\<rparr>
        (deleteSessions [''1-a''] example_store) = []
   \<and> getEvents \<lparr>ef_sessionId = Some ''1-a'', ef_agentId = None, ef_eventType = None,
        ef_limit = None\<rparr> (deleteSessions [''1-a''] example_store) = []
   \<and> getAgents (Some ''1-a'') 100 (deleteSessions [''1-a''] example_store) = []
   \<and> filter (\<lambda>s. s_id s = ''1-a'')
        (getSessions 50 0 None (deleteSessions [''1-a''] example_store)) = []
   \<and> t_session_id (tool_uses (deleteSessions [''1-a''] example_store) ! 0)
        \<in> s_id ` set (sessions (deleteSessions [''1-a''] example_store))"
proof -
  let ?f = "\<lparr>tuf_sessionId = None, tuf_agentId = None, tuf_toolName = None,
        tuf_status = None, tuf_limit = None, tuf_offset = None\<rparr>"
  let ?g = "\<lparr>ef_sessionId = None, ef_agentId = None, ef_eventType = None, ef_limit = None\<rparr>"
  have mem: "''1-a'' \<in> set [''1-a'']" and ne: "''1-a'' \<noteq> []"
    by simp_all
  note th = delete_sessions_cascade [OF mem, of example_store ?f ?g 100 50 0 None]
  have q: "getToolUses (?f\<lparr>tuf_sessionId := Some ''1-a''\<rparr>) (deleteSessions [''1-a''] example_store) = []
         \<and> getEvents (?g\<lparr>ef_sessionId := Some ''1-a''\<rparr>) (deleteSessions [''1-a''] example_store) = []
         \<and> getAgents (Some ''1-a'') 100 (deleteSessions [''1-a''] example_store) = []
         \<and> filter (\<lambda>s. s_id s = ''1-a'')
              (getSessions 50 0 None (deleteSessions [''1-a''] example_store)) = []"
    using th [THEN conjunct2, THEN conjunct2, THEN conjunct2, THEN conjunct2, THEN conjunct2,
        THEN conjunct2, THEN conjunct2, THEN conjunct2, THEN conjunct1] ne
    by (rule mp)
  have t0: "map t_id (tool_uses example_store) = [1, 2, 3]"
    by (simp add: example_store_def)
  have t1: "map t_id (tool_uses (deleteSessions [''1-a''] example_store)) = [2, 3]"
    using th by (simp add: example_store_def)
  have t2: "map e_id (events (deleteSessions [''1-a''] example_store)) = [2, 3]"
    using th by (simp add: example_store_def)
  have t3: "map a_id (agents (deleteSessions [''1-a''] example_store)) = [''4-d'']"
    using th by (simp add: example_store_def)
  have t4: "map s_id (sessions (deleteSessions [''1-a''] example_store)) = [''2-b'']"
    using th by (simp add: example_store_def)
  from q have q': "getToolUses \<lparr>tuf_sessionId = Some ''1-a'', tuf_agentId = None, tuf_toolName = None,
        tuf_status = None, tuf_limit = None, tuf_offset = None\<rparr>
        (deleteSessions [''1-a''] example_store) = []
   \<and> getEvents \<lparr>ef_sessionId = Some ''1-a'', ef_agentId = None, ef_eventType = None,
        ef_limit = None\<rparr> (deleteSessions [''1-a''] example_store) = []
   \<and> getAgents (Some ''1-a'') 100 (deleteSessions [''1-a''] example_store) = []
   \<and> filter (\<lambda>s. s_id s = ''1-a'')
        (getSessions 50 0 None (deleteSessions [''1-a''] example_store)) = []"
    by simp
  have refs: "(\<forall>t \<in> set (tool_uses example_store). t_session_id t \<in> s_id ` set (sessions example_store))
          \<and> (\<forall>ev \<in> set (events example_store). e_session_id ev \<in> s_id ` set (sessions example_store))
          \<and> (\<forall>a \<in> set (agents example_store). a_session_id a \<in> s_id ` set (sessions example_store))"
    by (simp add: example_store_def)
  have "\<forall>t \<in> set (tool_uses (deleteSessions [''1-a''] example_store)).
             t_session_id t \<in> s_id ` set (sessions (deleteSessions [''1-a''] example_store))"
    using th [THEN conjunct2, THEN conjunct2, THEN conjunct2, THEN conjunct2, THEN conjunct2,
        THEN conjunct2, THEN conjunct2, THEN conjunct2, THEN conjunct2, THEN mp, OF refs]
    by (rule conjunct1)
  moreover have "tool_uses (deleteSessions [''1-a''] example_store) ! 0
      \<in> set (tool_uses (deleteSessions [''1-a''] example_store))"
    using t1 by (intro nth_mem) (metis length_map length_pos_if_in_set list.set_intros(1))
  ultimately have r: "t_session_id (tool_uses (deleteSessions [''1-a''] example_store) ! 0)
        \<in> s_id ` set (sessions (deleteSessions [''1-a''] example_store))"
    by (rule bspec)
  from t0 t1 t2 t3 t4 q' r show ?thesis
    by (intro conjI) (elim conjE, assumption)+
qed

section \<open>The stale-recovery sweep\<close>

lemma cleanup_no_pending_left:
  assumes "t \<in> set (tool_uses (cleanupStalePendingTools now d))" and "t_status t = Pending"
  shows "t_session_id t \<notin> ended_session_ids d \<and> \<not> t_started_at t < now - 3600"
  using assms
  by (auto simp: cleanupStalePendingTools_def Let_def interrupt_row_def split: if_splits)

lemma cleanup_fixpoint:
  assumes "\<forall>t \<in> set (tool_uses d). t_status t = Pending \<longrightarrow>
             t_session_id t \<notin> ended_session_ids d \<and> \<not> t_started_at t < now - 3600"
  shows "cleanupStalePendingTools now d = d"
proof -
  have "map (\<lambda>t. if t_status t = Pending \<and> t_session_id t \<in> ended_session_ids d
                  then interrupt_row now ''Session ended abnormally'' t else t) (tool_uses d)
        = tool_uses d"
    using assms by (intro map_idI) auto
  moreover have "map (\<lambda>t. if t_status t = Pending \<and> t_started_at t < now - 3600
                  then interrupt_row now ''Stale pending tool (session likely ended abnormally)'' t
                  else t) (tool_uses d) = tool_uses d"
    using assms by (intro map_idI) auto
  ultimately show ?thesis
    by (simp add: cleanupStalePendingTools_def Let_def)
qed

text \<open>
  Claim C7. The sweep is idempotent at a fixed current time: a second run leaves the
  store as the first run left it, because after the first run no pending tool use
  belongs to a session whose \<open>ended_at\<close> is set and none is older than one hour.
  Every session start runs the sweep first, whatever the state: the tool uses it leaves
  are those of the swept store.
\<close>

theorem sweep_idempotent:
  "cleanupStalePendingTools now (cleanupStalePendingTools now d) = cleanupStalePendingTools now d
   \<and> (\<forall>t \<in> set (tool_uses (cleanupStalePendingTools now d)).
        t_status t = Pending \<longrightarrow>
          t_session_id t \<notin> ended_session_ids (cleanupStalePendingTools now d)
          \<and> \<not> t_started_at t < now - 3600)
   \<and> tool_uses (db (session_start e data st))
       = tool_uses (cleanupStalePendingTools (clock e) (db st))"
proof -
  let ?d' = "cleanupStalePendingTools now d"
  have ids: "ended_session_ids ?d' = ended_session_ids d"
    by (simp add: ended_session_ids_def)
  have left: "\<forall>t \<in> set (tool_uses ?d'). t_status t = Pending \<longrightarrow>
      t_session_id t \<notin> ended_session_ids ?d' \<and> \<not> t_started_at t < now - 3600"
    using cleanup_no_pending_left [of _ now d] ids by blast
  have start: "tool_uses (db (session_start e data st))
       = tool_uses (cleanupStalePendingTools (clock e) (db st))"
    by (simp add: session_start_db)
  from cleanup_fixpoint [OF left] left start show ?thesis
    by (intro conjI) assumption+
qed

theorem sweep_idempotent_witness:
  "map t_status (tool_uses (cleanupStalePendingTools 13000 example_store))
     = [Interrupted, Interrupted, Pending]
   \<and> cleanupStalePendingTools 13000 (cleanupStalePendingTools 13000 example_store)
     = cleanupStalePendingTools 13000 example_store
   \<and> t_session_id (tool_uses (cleanupStalePendingTools 13000 example_store) ! 2)
        \<notin> ended_session_ids (cleanupStalePendingTools 13000 example_store)
   \<and> \<not> t_started_at (tool_uses (cleanupStalePendingTools 13000 example_store) ! 2)
          < 13000 - 3600"
proof -
  let ?d = "cleanupStalePendingTools 13000 example_store"
  have st: "map t_status (tool_uses ?d) = [Interrupted, Interrupted, Pending]"
    by (simp add: cleanupStalePendingTools_def example_store_def ended_session_ids_def
        interrupt_row_def Let_def)
  then have len: "length (tool_uses ?d) = 3"
    by (simp add: cleanupStalePendingTools_def example_store_def)
  then have mem: "tool_uses ?d ! 2 \<in> set (tool_uses ?d)"
    by simp
  have "t_status (tool_uses ?d ! 2) = map t_status (tool_uses ?d) ! 2"
    using len by simp
  then have pen: "t_status (tool_uses ?d ! 2) = Pending"
    using st by simp
  have idem: "cleanupStalePendingTools 13000 ?d = ?d"
    using sweep_idempotent [of 13000 example_store] by (rule conjunct1)
  have "\<forall>t \<in> set (tool_uses ?d). t_status t = Pending \<longrightarrow>
          t_session_id t \<notin> ended_session_ids ?d \<and> \<not> t_started_at t < 13000 - 3600"
    using sweep_idempotent [of 13000 example_store, THEN conjunct2] by (rule conjunct1)
  with mem pen have "t_session_id (tool_uses ?d ! 2) \<notin> ended_session_ids ?d
      \<and> \<not> t_started_at (tool_uses ?d ! 2) < 13000 - 3600"
    by (elim ballE) auto
  with st idem show ?thesis
    by (intro conjI) (elim conjE, assumption)+
qed

section \<open>The guarded raw query\<close>

text \<open>
  Claim C8. A query whose trimmed, lower-cased text does not begin with \<open>select\<close> is
  rejected with an error, which the request handler answers as an internal error carrying
  the message, and the store is left as it was; a query that does begin with \<open>select\<close>
  is handed to the engine unchanged and its rows are the result. The two queries of the
  scenario are rejected and accepted.
\<close>

theorem query_guard:
  "(\<not> startsWith (toLowerCase (trim q)) ''select'' \<longrightarrow>
      agentarium_query_db engine q d = (Inl ''Only SELECT queries are allowed'', d)
      \<and> handleRequest_query engine q d = (RpcError (- 32603) ''Only SELECT queries are allowed'', d))
   \<and> (startsWith (toLowerCase (trim q)) ''select'' \<longrightarrow>
      agentarium_query_db engine q d = engine q d
      \<and> (\<forall>rows d'. engine q d = (Inr rows, d') \<longrightarrow>
            handleRequest_query engine q d = (RpcResult rows, d')))
   \<and> \<not> startsWith (toLowerCase (trim ''DROP TABLE sessions'')) ''select''
   \<and> startsWith (toLowerCase (trim ''SELECT * FROM sessions LIMIT 1'')) ''select''"
proof -
  have drop: "\<not> startsWith (toLowerCase (trim ''DROP TABLE sessions'')) ''select''"
    by code_simp
  have sel: "startsWith (toLowerCase (trim ''SELECT * FROM sessions LIMIT 1'')) ''select''"
    by code_simp
  show ?thesis
    using drop sel by (simp add: agentarium_query_db_def handleRequest_query_def Let_def)
qed

theorem query_guard_witness:
  "handleRequest_query example_engine ''DROP TABLE sessions'' example_store
     = (RpcError (- 32603) ''Only SELECT queries are allowed'', example_store)
   \<and> handleRequest_query example_engine ''SELECT * FROM sessions LIMIT 1'' example_store
     = (RpcResult 2, example_store)"
proof -
  have e: "example_engine ''SELECT * FROM sessions LIMIT 1'' example_store = (Inr 2, example_store)"
    by (simp add: example_engine_def example_store_def)
  from query_guard [of "''DROP TABLE sessions''" example_engine example_store]
  have a: "handleRequest_query example_engine ''DROP TABLE sessions'' example_store
     = (RpcError (- 32603) ''Only SELECT queries are allowed'', example_store)"
    by blast
  from query_guard [of "''SELECT * FROM sessions LIMIT 1''" example_engine example_store] e
  have b: "handleRequest_query example_engine ''SELECT * FROM sessions LIMIT 1'' example_store
     = (RpcResult 2, example_store)"
    by blast
  from a b show ?thesis by blast
qed


section \<open>The post-tool hook\<close>

lemma str_includes_iff: "str_includes s n \<longleftrightarrow> (\<exists>pre suf. s = pre @ n @ suf)"
proof (induction s)
  case Nil
  show ?case by auto
next
  case (Cons c cs)
  show ?case
  proof
    assume "str_includes (c # cs) n"
    then consider "prefix n (c # cs)" | "str_includes cs n" by auto
    then show "\<exists>pre suf. c # cs = pre @ n @ suf"
    proof cases
      case 1
      then obtain suf where "c # cs = n @ suf" by (auto simp: prefix_def)
      then have "c # cs = [] @ n @ suf" by simp
      then show ?thesis by blast
    next
      case 2
      with Cons.IH obtain pre suf where "cs = pre @ n @ suf" by blast
      then have "c # cs = (c # pre) @ n @ suf" by simp
      then show ?thesis by blast
    qed
  next
    assume "\<exists>pre suf. c # cs = pre @ n @ suf"
    then obtain pre suf where eq: "c # cs = pre @ n @ suf" by blast
    show "str_includes (c # cs) n"
    proof (cases pre)
      case Nil
      with eq have "prefix n (c # cs)" by (simp add: prefix_def)
      then show ?thesis by simp
    next
      case (Cons p pre')
      with eq have "cs = pre' @ n @ suf" by simp
      with Cons.IH have "str_includes cs n" by blast
      then show ?thesis by simp
    qed
  qed
qed

lemma hasError_iff:
  "hasError hookData \<longleftrightarrow>
     (\<exists>h. hookData = Some h \<and>
        ((\<exists>m. po_error h = Some m \<and> m \<noteq> []) \<or>
         (\<exists>out pre suf. po_tool_output h = Some (JStr out) \<and> out = pre @ ''error'' @ suf)))"
  by (auto simp: hasError_def str_given_def str_includes_iff
      split: option.splits json.splits)

lemma post_tool_pending:
  assumes "pendingToolUseId (ctx st) = Some i" and "i \<noteq> 0"
  shows "tool_uses (db (post_tool e hookData st))
       = map (\<lambda>t. if t_id t = i
                   then t\<lparr>t_ended_at := Some (clock e),
                          t_duration_ms := Some (JulianDiff (clock e) (t_started_at t)),
                          t_tool_output := json_or_null
                            (case hookData of None \<Rightarrow> None | Some h \<Rightarrow> po_tool_output h),
                          t_status := (if hasError hookData then Error else Success),
                          t_error := str_or_null
                            (case hookData of None \<Rightarrow> None | Some h \<Rightarrow> po_error h)\<rparr>
                   else t)
           (tool_uses (db st))"
    and "pendingToolUseId (ctx (post_tool e hookData st)) = None"
  using assms by (simp_all add: post_tool_def recordToolEnd_def duration_since_def)

lemma post_tool_none: "pendingToolUseId (ctx st) = None \<Longrightarrow> post_tool e hookData st = st"
  by (simp add: post_tool_def)

lemma cleanup_session_ids [simp]:
  "map t_session_id (tool_uses (cleanupStalePendingTools now d)) = map t_session_id (tool_uses d)"
  by (simp add: cleanupStalePendingTools_def Let_def interrupt_row_def comp_def if_distrib
      cong: if_cong)

lemma hook_tool_name_Read:
  "hook_tool_name (Some \<lparr>ph_tool_name = Some ''Read'', ph_tool_input = inp\<rparr>) = ''Read''"
  by (simp add: hook_tool_name_def)

lemma contents_no_error:
  "\<not> hasError (Some \<lparr>po_tool_output = Some (JStr ''contents''), po_error = None\<rparr>)"
  by (simp add: hasError_def str_given_def)

lemma read_scenario:
  assumes fresh: "\<forall>t \<in> set (tool_uses (db st)). t_session_id t \<noteq> generateId e1"
    and small: "tool_seq (db st) < 2 ^ 53"
  shows "\<exists>t. filter (\<lambda>t. t_session_id t = generateId e1)
           (tool_uses (db (post_tool e3
              (Some \<lparr>po_tool_output = Some (JStr ''contents''), po_error = None\<rparr>)
              (step (PreToolUse e2
                 (Some \<lparr>ph_tool_name = Some ''Read'', ph_tool_input = inp\<rparr>))
                 (session_start e1 data st))))) = [t]
        \<and> t_tool_name t = ''Read'' \<and> t_status t = Success
        \<and> t_duration_ms t = Some (JulianDiff (clock e3) (clock e2))
        \<and> t_ended_at t = Some (clock e3)"
proof -
  let ?sid = "generateId e1"
  let ?st1 = "session_start e1 data st"
  let ?pre = "Some \<lparr>ph_tool_name = Some ''Read'', ph_tool_input = inp\<rparr>"
  let ?post = "Some \<lparr>po_tool_output = Some (JStr ''contents''), po_error = None\<rparr>"
  let ?st2 = "step (PreToolUse e2 ?pre) ?st1"
  let ?i = "Suc (tool_seq (db ?st1))"
  let ?row = "\<lparr>t_id = ?i, t_session_id = ?sid, t_agent_id = None, t_tool_name = ''Read'',
      t_tool_input = json_or_null inp, t_tool_output = None, t_started_at = clock e2,
      t_ended_at = None, t_duration_ms = None, t_status = Pending, t_error = None\<rparr>"
  let ?upd = "\<lambda>t. if t_id t = ?i
                   then t\<lparr>t_ended_at := Some (clock e3),
                          t_duration_ms := Some (JulianDiff (clock e3) (t_started_at t)),
                          t_tool_output := json_or_null
                            (case ?post of None \<Rightarrow> None | Some h \<Rightarrow> po_tool_output h),
                          t_status := (if hasError ?post then Error else Success),
                          t_error := str_or_null
                            (case ?post of None \<Rightarrow> None | Some h \<Rightarrow> po_error h)\<rparr>
                   else t"
  have "map t_session_id (tool_uses (db ?st1)) = map t_session_id (tool_uses (db st))"
    by (simp add: session_start_db)
  then have "set (map t_session_id (tool_uses (db ?st1))) = set (map t_session_id (tool_uses (db st)))"
    by simp
  with fresh have none1: "\<forall>t \<in> set (tool_uses (db ?st1)). t_session_id t \<noteq> ?sid"
    by (metis (no_types, lifting) image_iff set_map)
  have pre: "pre_tool e2 ?pre ?st1
      = Inr (record_tool_use e2 ?sid (ctx ?st1) ''Read'' inp ?st1)"
    by (simp add: pre_tool_def hook_tool_name_Read hook_tool_input_def Let_def)
  then have st2: "?st2 = record_tool_use e2 ?sid (ctx ?st1) ''Read'' inp ?st1"
    by simp
  have tools2: "tool_uses (db ?st2) = tool_uses (db ?st1) @ [?row]"
    unfolding st2 by (simp add: record_tool_use_db recordToolStart_def Let_def str_or_null_def)
  have "tool_seq (db ?st1) = tool_seq (db st)"
    by (simp add: session_start_db)
  with small have "?i \<le> 2 ^ 53"
    by simp
  then have "js_Number ?i = ?i"
    by (rule js_Number_small)
  then have pend2: "pendingToolUseId (ctx ?st2) = Some ?i"
    unfolding st2 by simp
  have tools3: "tool_uses (db (post_tool e3 ?post ?st2)) = map ?upd (tool_uses (db ?st2))"
    using pend2 by (rule post_tool_pending(1)) simp
  have keep: "t_session_id (?upd t) = t_session_id t" for t
    by simp
  have "filter (\<lambda>t. t_session_id t = ?sid) (map ?upd (tool_uses (db ?st1))) = []"
    using none1 by (auto simp: filter_empty_conv)
  then have "filter (\<lambda>t. t_session_id t = ?sid) (tool_uses (db (post_tool e3 ?post ?st2)))
      = [?upd ?row]"
    unfolding tools3 tools2 by simp
  moreover have "t_tool_name (?upd ?row) = ''Read''" "t_status (?upd ?row) = Success"
    "t_duration_ms (?upd ?row) = Some (JulianDiff (clock e3) (clock e2))"
    "t_ended_at (?upd ?row) = Some (clock e3)"
    using contents_no_error by simp_all
  ultimately show ?thesis by blast
qed




section \<open>Pending tool uses at the end of a session\<close>

lemma session_end_tool_uses:
  assumes "currentSessionId (ctx st) = Some sid" and "sid \<noteq> []"
  shows "tool_uses (db (session_end e st))
     = map (\<lambda>t. if t_session_id t = sid \<and> t_status t = Pending
                 then interrupt_row (clock e) ''Session ended before tool completed'' t else t)
         (tool_uses (db st))"
  using assms by (simp add: session_end_db markPendingToolsInterrupted_def)

text \<open>
  Claim C4. After a session start, any sequence of pre-tool, post-tool, subagent-stop and
  stop hooks, and the session end, no tool use of that session is pending: the session end
  rewrites exactly the rows of the session that were still pending, to status interrupted
  with \<open>ended_at\<close> set to the time of the session end and \<open>duration_ms\<close> to what the
  engine computes from that time and \<open>started_at\<close> (the difference of their Julian days
  times 86400000, a floating-point number), and leaves every other row as it was.
\<close>

theorem no_pending_after_session_end:
  assumes "\<forall>h \<in> set hs. in_session h"
  shows "tool_uses (db (session_end e' (run hs (session_start e data st))))
       = map (\<lambda>t. if t_session_id t = generateId e \<and> t_status t = Pending
                   then t\<lparr>t_ended_at := Some (clock e'),
                          t_duration_ms := Some (JulianDiff (clock e') (t_started_at t)),
                          t_status := Interrupted,
                          t_error := Some ''Session ended before tool completed''\<rparr>
                   else t)
           (tool_uses (db (run hs (session_start e data st))))
     \<and> (\<forall>t \<in> set (tool_uses (db (session_end e' (run hs (session_start e data st))))).
          t_session_id t = generateId e \<longrightarrow> t_status t \<noteq> Pending)
     \<and> (\<forall>i < length (tool_uses (db (run hs (session_start e data st)))).
          t_session_id (tool_uses (db (run hs (session_start e data st))) ! i) = generateId e \<and>
          t_status (tool_uses (db (run hs (session_start e data st))) ! i) = Pending \<longrightarrow>
          t_status (tool_uses (db (session_end e' (run hs (session_start e data st)))) ! i)
            = Interrupted \<and>
          t_ended_at (tool_uses (db (session_end e' (run hs (session_start e data st)))) ! i)
            = Some (clock e'))"
proof -
  let ?st1 = "run hs (session_start e data st)"
  let ?f = "\<lambda>t. if t_session_id t = generateId e \<and> t_status t = Pending
                   then t\<lparr>t_ended_at := Some (clock e'),
                          t_duration_ms := Some (JulianDiff (clock e') (t_started_at t)),
                          t_status := Interrupted,
                          t_error := Some ''Session ended before tool completed''\<rparr>
                   else t"
  have "currentSessionId (ctx ?st1) = Some (generateId e)"
    using run_in_session [OF assms, of "session_start e data st"] by simp
  then have eq: "tool_uses (db (session_end e' ?st1)) = map ?f (tool_uses (db ?st1))"
    by (simp add: session_end_tool_uses interrupt_row_def duration_since_def)
  have a: "\<forall>t \<in> set (tool_uses (db (session_end e' ?st1))).
          t_session_id t = generateId e \<longrightarrow> t_status t \<noteq> Pending"
    unfolding eq by auto
  have b: "\<forall>i < length (tool_uses (db ?st1)).
          t_session_id (tool_uses (db ?st1) ! i) = generateId e \<and>
          t_status (tool_uses (db ?st1) ! i) = Pending \<longrightarrow>
          t_status (tool_uses (db (session_end e' ?st1)) ! i) = Interrupted \<and>
          t_ended_at (tool_uses (db (session_end e' ?st1)) ! i) = Some (clock e')"
    unfolding eq by simp
  from eq a b show ?thesis
    by (intro conjI) assumption+
qed

theorem no_pending_after_session_end_witness:
  "map t_status (tool_uses (db (run [PreToolUse env2 task_call, PreToolUse env3 read_call]
       (session_start env1 no_session_data example_state))))
     = [Interrupted, Pending, Pending, Pending, Pending]
   \<and> map t_session_id (tool_uses (db (run [PreToolUse env2 task_call, PreToolUse env3 read_call]
       (session_start env1 no_session_data example_state))))
     = [''1-a'', ''2-b'', ''2-b'', generateId env1, generateId env1]
   \<and> map t_status (tool_uses (db (session_end env4
       (run [PreToolUse env2 task_call, PreToolUse env3 read_call]
         (session_start env1 no_session_data example_state)))))
     = [Interrupted, Pending, Pending, Interrupted, Interrupted]
   \<and> map t_ended_at (tool_uses (db (session_end env4
       (run [PreToolUse env2 task_call, PreToolUse env3 read_call]
         (session_start env1 no_session_data example_state)))))
     = [Some 10000, None, None, Some 10180, Some 10180]
   \<and> map t_duration_ms (tool_uses (db (session_end env4
       (run [PreToolUse env2 task_call, PreToolUse env3 read_call]
         (session_start env1 no_session_data example_state)))))
     = [Some (JulianDiff 10000 9500), None, None,
        Some (JulianDiff 10180 10060), Some (JulianDiff 10180 10120)]"
proof -
  let ?hs = "[PreToolUse env2 task_call, PreToolUse env3 read_call]"
  let ?st1 = "run ?hs (session_start env1 no_session_data example_state)"
  let ?f = "\<lambda>t. if t_session_id t = generateId env1 \<and> t_status t = Pending
                   then t\<lparr>t_ended_at := Some (clock env4),
                          t_duration_ms := Some (JulianDiff (clock env4) (t_started_at t)),
                          t_status := Interrupted,
                          t_error := Some ''Session ended before tool completed''\<rparr>
                   else t"
  have h: "\<forall>h \<in> set ?hs. in_session h"
    by simp
  have eq: "tool_uses (db (session_end env4 ?st1)) = map ?f (tool_uses (db ?st1))"
    using no_pending_after_session_end [OF h, of env4 env1 no_session_data example_state]
    by (rule conjunct1)
  have c1: "map t_status (tool_uses (db ?st1))
      = [Interrupted, Pending, Pending, Pending, Pending]"
    by code_simp
  have c2: "map t_session_id (tool_uses (db ?st1))
      = [''1-a'', ''2-b'', ''2-b'', generateId env1, generateId env1]"
    by code_simp
  have c3: "map t_status (map ?f (tool_uses (db ?st1)))
      = [Interrupted, Pending, Pending, Interrupted, Interrupted]"
    by code_simp
  have c4: "map t_ended_at (map ?f (tool_uses (db ?st1)))
      = [Some 10000, None, None, Some 10180, Some 10180]"
    by code_simp
  have c5: "map t_duration_ms (map ?f (tool_uses (db ?st1)))
      = [Some (JulianDiff 10000 9500), None, None,
         Some (JulianDiff 10180 10060), Some (JulianDiff 10180 10120)]"
    by code_simp
  from c1 c2 c3 c4 c5 show ?thesis
    unfolding eq by (intro conjI) assumption+
qed


section \<open>The agent relation is a forest\<close>

text \<open>
  Claim C5. In every state reached from the empty store by hook invocations in any order,
  a parent link names an agent row inserted earlier, of the same session, and following
  the parent links from any agent reaches null, within as many steps as there are agent
  rows. An agent that a pre-tool hook creates reaches null, in that state and in every
  state reached later, in exactly as many steps as the agent stack is deep with the new
  agent on it (one link for each open agent below it on the stack, and its last, null
  link), so within the depth of the stack at its creation.
\<close>

theorem agent_forest_acyclic:
  assumes "reachable st"
  shows "(\<forall>i < length (agents (db st)). \<forall>p.
            a_parent_agent_id (agents (db st) ! i) = Some p \<longrightarrow>
            (\<exists>j < i. a_id (agents (db st) ! j) = p \<and>
               a_session_id (agents (db st) ! j) = a_session_id (agents (db st) ! i)))
     \<and> (\<forall>a \<in> set (agents (db st)).
            \<exists>k. depth (agents (db st)) (a_id a) = Some k \<and> k \<le> length (agents (db st)))
     \<and> (pre_tool e hookData st = Inr st' \<and> agents (db st') \<noteq> agents (db st) \<longrightarrow>
            a_id (last (agents (db st'))) = generateId e
          \<and> agentStack (ctx st') = agentStack (ctx st) @ [generateId e]
          \<and> depth (agents (db (run hs st'))) (generateId e)
              = Some (length (agentStack (ctx st'))))"
proof -
  let ?rows = "agents (db st)"
  from assms have ok: "agent_forest_ok st"
    by (rule agent_forest_ok_reachable)
  then have dist: "distinct (map a_id ?rows)"
    and earlier: "\<forall>i < length ?rows. \<forall>p. a_parent_agent_id (?rows ! i) = Some p \<longrightarrow>
         (\<exists>j < i. a_id (?rows ! j) = p \<and> a_session_id (?rows ! j) = a_session_id (?rows ! i))"
    unfolding agent_forest_ok_def Let_def by blast+
  from earlier have earlier': "\<forall>i < length ?rows. \<forall>p.
      a_parent_agent_id (?rows ! i) = Some p \<longrightarrow> (\<exists>j < i. a_id (?rows ! j) = p)"
    by blast
  have bounded: "\<forall>a \<in> set ?rows. \<exists>k. depth ?rows (a_id a) = Some k \<and> k \<le> length ?rows"
    using depth_bounded [OF dist earlier'] by blast
  have created: "pre_tool e hookData st = Inr st' \<and> agents (db st') \<noteq> agents (db st) \<longrightarrow>
            a_id (last (agents (db st'))) = generateId e
          \<and> agentStack (ctx st') = agentStack (ctx st) @ [generateId e]
          \<and> depth (agents (db (run hs st'))) (generateId e)
              = Some (length (agentStack (ctx st')))"
  proof
    assume "pre_tool e hookData st = Inr st' \<and> agents (db st') \<noteq> agents (db st)"
    then have pre: "pre_tool e hookData st = Inr st'"
      and new: "agents (db st') \<noteq> agents (db st)"
      by simp_all
    note c = created_agent_depth [OF ok pre new]
    from c(3) have "depth (agents (db (run hs st'))) (generateId e)
        = Some (length (agentStack (ctx st')))"
      by (rule depth_run)
    with c(1,2) show "a_id (last (agents (db st'))) = generateId e
          \<and> agentStack (ctx st') = agentStack (ctx st) @ [generateId e]
          \<and> depth (agents (db (run hs st'))) (generateId e)
              = Some (length (agentStack (ctx st')))"
      by simp
  qed
  from earlier bounded created show ?thesis
    by (intro conjI) assumption+
qed

theorem agent_forest_acyclic_witness:
  "reachable one_agent_state
   \<and> pre_tool env3 task_call one_agent_state
       = Inr (step (PreToolUse env3 task_call) one_agent_state)
   \<and> map a_id (agents (db (step (PreToolUse env3 task_call) one_agent_state)))
       = [generateId env2, generateId env3]
   \<and> map a_parent_agent_id (agents (db (step (PreToolUse env3 task_call) one_agent_state)))
       = [None, Some (generateId env2)]
   \<and> agentStack (ctx (step (PreToolUse env3 task_call) one_agent_state))
       = [generateId env2, generateId env3]
   \<and> depth (agents (db (run [SubagentStop env4 None, SubagentStop env5 None]
        (step (PreToolUse env3 task_call) one_agent_state)))) (generateId env3) = Some 2
   \<and> (\<exists>j < 1. a_id (agents (db (step (PreToolUse env3 task_call) one_agent_state)) ! j)
           = generateId env2
         \<and> a_session_id (agents (db (step (PreToolUse env3 task_call) one_agent_state)) ! j)
           = a_session_id (agents (db (step (PreToolUse env3 task_call) one_agent_state)) ! 1))
   \<and> (\<exists>k. depth (agents (db (step (PreToolUse env3 task_call) one_agent_state)))
             (a_id (agents (db (step (PreToolUse env3 task_call) one_agent_state)) ! 1)) = Some k
         \<and> k \<le> length (agents (db (step (PreToolUse env3 task_call) one_agent_state))))"
proof -
  let ?st' = "step (PreToolUse env3 task_call) one_agent_state"
  have r: "reachable one_agent_state"
    unfolding reachable_def one_agent_state_def by blast
  have pre: "pre_tool env3 task_call one_agent_state = Inr ?st'"
    by code_simp
  have new: "agents (db ?st') \<noteq> agents (db one_agent_state)"
    by code_simp
  have ids: "map a_id (agents (db ?st')) = [generateId env2, generateId env3]"
    by code_simp
  have parents: "map a_parent_agent_id (agents (db ?st')) = [None, Some (generateId env2)]"
    by code_simp
  have stack: "agentStack (ctx ?st') = [generateId env2, generateId env3]"
    by code_simp
  from agent_forest_acyclic [OF r, of env3 task_call ?st'
      "[SubagentStop env4 None, SubagentStop env5 None]"] pre new
  have "depth (agents (db (run [SubagentStop env4 None, SubagentStop env5 None] ?st')))
      (generateId env3) = Some (length (agentStack (ctx ?st')))"
    by blast
  moreover have "length (agentStack (ctx ?st')) = 2"
    unfolding stack by simp
  ultimately have d: "depth (agents (db (run [SubagentStop env4 None, SubagentStop env5 None] ?st')))
      (generateId env3) = Some 2"
    by (simp only:)
  text \<open>The state with the two agents is reachable too.\<close>
  have r2: "reachable ?st'"
    using r by (rule reachable_step)
  note th2 = agent_forest_acyclic [OF r2]
  have len: "1 < length (agents (db ?st'))"
    using length_map [of a_id "agents (db ?st')"] unfolding ids by simp
  then have mem: "agents (db ?st') ! 1 \<in> set (agents (db ?st'))"
    by (rule nth_mem)
  have "a_parent_agent_id (agents (db ?st') ! 1) = map a_parent_agent_id (agents (db ?st')) ! 1"
    using len by simp
  then have par: "a_parent_agent_id (agents (db ?st') ! 1) = Some (generateId env2)"
    unfolding parents by simp
  note th2 [THEN conjunct1, THEN spec, THEN mp, OF len, THEN spec, THEN mp, OF par]
  then have e1: "\<exists>j < 1. a_id (agents (db ?st') ! j) = generateId env2
         \<and> a_session_id (agents (db ?st') ! j) = a_session_id (agents (db ?st') ! 1)" .
  note th2 [THEN conjunct2, THEN conjunct1, THEN bspec, OF mem]
  then have e2: "\<exists>k. depth (agents (db ?st')) (a_id (agents (db ?st') ! 1)) = Some k
         \<and> k \<le> length (agents (db ?st'))" .
  from r pre ids parents stack d e1 e2 show ?thesis
    by (intro conjI) assumption+
qed


section \<open>Open sessions\<close>

lemma subagent_stop_sessions [simp]:
  "sessions (db (subagent_stop e r st)) = sessions (db st)"
  by (simp add: subagent_stop_def Let_def split: option.splits)

lemma stop_sessions [simp]: "sessions (db (stop e reason st)) = sessions (db st)"
  by (simp add: stop_def Let_def split: option.splits)

lemma post_tool_sessions [simp]: "sessions (db (post_tool e hookData st)) = sessions (db st)"
  by (simp add: post_tool_def split: option.splits)

lemma pre_tool_sessions:
  assumes "pre_tool e hookData st = Inr st'"
  shows "sessions (db st') = sessions (db st)"
proof (cases e hookData st rule: pre_tool_cases)
  case no_session
  with assms show ?thesis by simp
next
  case (plain sid)
  with assms show ?thesis by auto
next
  case (refused sid err)
  with assms show ?thesis by simp
next
  case (spawn sid st1)
  from spawn(5) have "sessions (db st1) = sessions (db st)"
    by (simp add: spawn_agent_Inr)
  with spawn(6) assms show ?thesis by auto
qed

lemma step_in_session_sessions:
  assumes "in_session h"
  shows "sessions (db (step h st)) = sessions (db st)"
proof (cases h)
  case (PreToolUse e hookData)
  show ?thesis
  proof (cases "pre_tool e hookData st")
    case (Inl err)
    with PreToolUse show ?thesis by simp
  next
    case (Inr st')
    with PreToolUse pre_tool_sessions [OF Inr] show ?thesis by simp
  qed
qed (use assms in simp_all)

lemma session_inv_in_session:
  assumes "session_inv opened st" and "in_session h"
  shows "session_inv opened (step h st)"
  using assms(1)
  unfolding session_inv_def open_sessions_def
    step_in_session_sessions [OF assms(2)] step_in_session [OF assms(2)] .

lemma not_in_filtered_keys: "c \<notin> set (map f (filter (\<lambda>x. f x \<noteq> c) xs))"
  by (induction xs) simp_all

lemma session_inv_start:
  assumes "session_inv False st"
  shows "session_inv True (session_start e data st)"
proof -
  let ?sid = "generateId e"
  define new :: session_row where "new =
     \<lparr>s_id = ?sid, s_started_at = clock e, s_ended_at = None,
      s_project_root = str_or_null (sd_projectRoot data),
      s_working_directory = str_or_null (sd_workingDirectory data),
      s_model = str_or_null (sd_model data),
      s_git_branch = str_or_null (sd_gitBranch data),
      s_metadata = json_or_null (sd_metadata data)\<rparr>"
  have rows: "sessions (db (session_start e data st))
      = filter (\<lambda>s. s_id s \<noteq> ?sid) (sessions (db st)) @ [new]"
    by (simp add: session_start_db createSession_def new_def)
  have new: "s_id new = ?sid" "s_ended_at new = None"
    by (simp_all add: new_def)
  let ?old = "filter (\<lambda>s. s_id s \<noteq> ?sid) (sessions (db st))"
  from assms have dist: "distinct (map s_id (sessions (db st)))"
    and nonempty: "\<forall>s \<in> set (sessions (db st)). s_id s \<noteq> []"
    and none_open: "\<forall>s \<in> set (filter (\<lambda>s. s_ended_at s = None) (sessions (db st))).
        False \<and> currentSessionId (ctx st) = Some (s_id s)"
    unfolding session_inv_def open_sessions_def by blast+
  have closed: "filter (\<lambda>s. s_ended_at s = None) ?old = []"
  proof (rule ccontr)
    assume "filter (\<lambda>s. s_ended_at s = None) ?old \<noteq> []"
    then obtain s where "s \<in> set (filter (\<lambda>s. s_ended_at s = None) ?old)"
      by (meson last_in_set)
    then have "s \<in> set (filter (\<lambda>s. s_ended_at s = None) (sessions (db st)))"
      by simp
    with none_open show False by blast
  qed
  have d_old: "distinct (map s_id ?old)"
    using dist by (rule distinct_map_filter)
  have fresh: "?sid \<notin> set (map s_id ?old)"
    by (rule not_in_filtered_keys)
  have 1: "distinct (map s_id (?old @ [new]))"
    using d_old fresh by (simp add: new(1))
  have 2: "\<forall>s \<in> set (?old @ [new]). s_id s \<noteq> []"
  proof
    fix s assume "s \<in> set (?old @ [new])"
    then consider "s \<in> set (sessions (db st))" | "s = new" by auto
    then show "s_id s \<noteq> []"
    proof cases
      case 1
      with nonempty show ?thesis by blast
    next
      case 2
      then show ?thesis by (simp add: new(1))
    qed
  qed
  have 3: "filter (\<lambda>s. s_ended_at s = None) (?old @ [new]) = [new]"
    using closed by (simp add: new(2))
  have 4: "\<forall>s \<in> set [new]. True \<and> Some ?sid = Some (s_id s)"
    by (simp add: new(1))
  have cur: "currentSessionId (ctx (session_start e data st)) = Some ?sid"
    by simp
  show ?thesis
    unfolding session_inv_def open_sessions_def rows 3 cur
    using 1 2 4 by (intro conjI) assumption+
qed

lemma session_inv_end:
  assumes "session_inv opened st"
  shows "session_inv False (session_end e st)"
proof -
  from assms have dist: "distinct (map s_id (sessions (db st)))"
    and nonempty: "\<forall>s \<in> set (sessions (db st)). s_id s \<noteq> []"
    and cur: "\<forall>s \<in> set (sessions (db st)). s_ended_at s = None \<longrightarrow>
        currentSessionId (ctx st) = Some (s_id s)"
    unfolding session_inv_def open_sessions_def by auto
  show ?thesis
  proof (cases "str_or_null (currentSessionId (ctx st))")
    case None
    then have rows: "sessions (db (session_end e st)) = sessions (db st)"
      by (simp add: session_end_db)
    have "\<forall>s \<in> set (sessions (db st)). s_ended_at s \<noteq> None"
    proof (intro ballI notI)
      fix s assume s: "s \<in> set (sessions (db st))" and "s_ended_at s = None"
      with cur have "currentSessionId (ctx st) = Some (s_id s)" by blast
      moreover from nonempty s have "s_id s \<noteq> []" by blast
      ultimately show False using None by simp
    qed
    with dist nonempty show ?thesis
      unfolding session_inv_def open_sessions_def rows by (simp add: filter_empty_conv)
  next
    case (Some sid)
    then have sid: "currentSessionId (ctx st) = Some sid" by simp
    define close :: "session_row \<Rightarrow> session_row" where
      "close = (\<lambda>s. if s_id s = sid then s\<lparr>s_ended_at := Some (clock e)\<rparr> else s)"
    from Some have rows: "sessions (db (session_end e st)) = map close (sessions (db st))"
      by (simp add: session_end_db endSession_def close_def)
    have keep: "s_id (close s) = s_id s" for s
      by (simp add: close_def)
    have closed: "s_ended_at (close s) \<noteq> None" if "s \<in> set (sessions (db st))" for s
    proof (cases "s_ended_at s")
      case None
      with cur that sid have "s_id s = sid" by auto
      then show ?thesis by (simp add: close_def)
    next
      case (Some t)
      then show ?thesis by (simp add: close_def)
    qed
    have 1: "distinct (map s_id (map close (sessions (db st))))"
      using dist by (simp add: comp_def keep)
    have 2: "\<forall>s \<in> set (map close (sessions (db st))). s_id s \<noteq> []"
      using nonempty by (simp add: keep)
    have 3: "filter (\<lambda>s. s_ended_at s = None) (map close (sessions (db st))) = []"
      using closed by (simp add: filter_empty_conv)
    show ?thesis
      unfolding session_inv_def open_sessions_def rows
      using 1 2 3 by simp
  qed
qed

lemma session_inv_run:
  assumes "session_inv opened st" and "sessions_alternate opened hs"
  shows "\<exists>opened'. session_inv opened' (run hs st)"
  using assms
proof (induction hs arbitrary: opened st)
  case Nil
  then show ?case by auto
next
  case (Cons h hs)
  show ?case
  proof (cases h)
    case (SessionStart e data)
    with Cons.prems have "\<not> opened" and alt: "sessions_alternate True hs"
      by simp_all
    with Cons.prems(1) have "session_inv True (session_start e data st)"
      by (simp add: session_inv_start)
    from Cons.IH [OF this alt] SessionStart show ?thesis by simp
  next
    case (SessionEnd e)
    with Cons.prems have alt: "sessions_alternate False hs"
      by simp
    from Cons.prems(1) have "session_inv False (session_end e st)"
      by (rule session_inv_end)
    from Cons.IH [OF this alt] SessionEnd show ?thesis by simp
  next
    case (PreToolUse e hookData)
    then have "in_session h" by simp
    with Cons.prems(1) have inv: "session_inv opened (step h st)"
      by (rule session_inv_in_session)
    from Cons.prems(2) PreToolUse have "sessions_alternate opened hs" by simp
    from Cons.IH [OF inv this] show ?thesis by simp
  next
    case (PostToolUse e hookData)
    then have "in_session h" by simp
    with Cons.prems(1) have inv: "session_inv opened (step h st)"
      by (rule session_inv_in_session)
    from Cons.prems(2) PostToolUse have "sessions_alternate opened hs" by simp
    from Cons.IH [OF inv this] show ?thesis by simp
  next
    case (SubagentStop e r)
    then have "in_session h" by simp
    with Cons.prems(1) have inv: "session_inv opened (step h st)"
      by (rule session_inv_in_session)
    from Cons.prems(2) SubagentStop have "sessions_alternate opened hs" by simp
    from Cons.IH [OF inv this] show ?thesis by simp
  next
    case (Stop e reason)
    then have "in_session h" by simp
    with Cons.prems(1) have inv: "session_inv opened (step h st)"
      by (rule session_inv_in_session)
    from Cons.prems(2) Stop have "sessions_alternate opened hs" by simp
    from Cons.IH [OF inv this] show ?thesis by simp
  qed
qed

lemma filter_same_key_length:
  assumes "distinct (map f xs)" and "\<forall>x \<in> set (filter P xs). f x = c"
  shows "length (filter P xs) \<le> 1"
proof -
  have "distinct (map f (filter P xs))"
    using assms(1) by (rule distinct_map_filter)
  moreover have "set (map f (filter P xs)) \<subseteq> {c}"
    using assms(2) by auto
  ultimately have "length (map f (filter P xs)) \<le> card {c}"
    by (metis card_mono distinct_card finite.emptyI finite.insertI)
  then show ?thesis by simp
qed


text \<open>
  Claim C9 as stated fails: a session start does not close the session row of a session
  that never received its end, so two session starts in a row leave two open rows.
\<close>

theorem one_open_session_counterexample:
  "map s_id (sessions (db (run two_starts initial_state))) = [generateId env1, generateId env2]
   \<and> map s_ended_at (sessions (db (run two_starts initial_state))) = [None, None]
   \<and> length (open_sessions (db (run two_starts initial_state))) = 2
   \<and> generateId env1 \<noteq> generateId env2"
  by code_simp

text \<open>
  Claim C9, amended. In every state reached from the empty store by hook invocations in
  which each session start comes when no session is open (at the beginning or after a
  session end), at most one session row is open, and an open row is the session that the
  Context Store names as current.
\<close>

theorem one_open_session_when_ordered:
  assumes "sessions_alternate False hs"
  shows "length (open_sessions (db (run hs initial_state))) \<le> 1
     \<and> (\<forall>s \<in> set (sessions (db (run hs initial_state))).
          s_ended_at s = None \<longrightarrow>
          currentSessionId (ctx (run hs initial_state)) = Some (s_id s))"
proof -
  let ?st = "run hs initial_state"
  have "session_inv False initial_state"
    by (simp add: session_inv_def open_sessions_def initial_state_def empty_db_def)
  from session_inv_run [OF this assms] obtain opened where inv: "session_inv opened ?st"
    by blast
  then have dist: "distinct (map s_id (sessions (db ?st)))"
    and cur: "\<forall>s \<in> set (filter (\<lambda>s. s_ended_at s = None) (sessions (db ?st))).
        s_id s = the (currentSessionId (ctx ?st))"
    unfolding session_inv_def open_sessions_def by auto
  from dist cur have "length (filter (\<lambda>s. s_ended_at s = None) (sessions (db ?st))) \<le> 1"
    by (rule filter_same_key_length)
  moreover from inv have "\<forall>s \<in> set (sessions (db ?st)).
          s_ended_at s = None \<longrightarrow> currentSessionId (ctx ?st) = Some (s_id s)"
    unfolding session_inv_def open_sessions_def by simp
  ultimately show ?thesis
    by (simp add: open_sessions_def)
qed

theorem one_open_session_when_ordered_witness:
  "sessions_alternate False two_sessions
   \<and> map s_id (sessions (db (run two_sessions initial_state)))
       = [generateId env1, generateId env4]
   \<and> map s_ended_at (sessions (db (run two_sessions initial_state))) = [Some 10120, None]
   \<and> length (open_sessions (db (run two_sessions initial_state))) \<le> 1
   \<and> currentSessionId (ctx (run two_sessions initial_state))
       = Some (s_id (sessions (db (run two_sessions initial_state)) ! 1))"
proof -
  let ?st = "run two_sessions initial_state"
  have h: "sessions_alternate False two_sessions"
    by (simp add: two_sessions_def read_call_def)
  note th = one_open_session_when_ordered [OF h]
  have ids: "map s_id (sessions (db ?st)) = [generateId env1, generateId env4]"
    by code_simp
  have ended: "map s_ended_at (sessions (db ?st)) = [Some 10120, None]"
    by code_simp
  have mem: "sessions (db ?st) ! 1 \<in> set (sessions (db ?st))"
    by code_simp
  have op: "s_ended_at (sessions (db ?st) ! 1) = None"
    by code_simp
  from th [THEN conjunct2] mem op
  have cur: "currentSessionId (ctx ?st) = Some (s_id (sessions (db ?st) ! 1))"
    by blast
  from h ids ended th [THEN conjunct1] cur show ?thesis
    by (intro conjI) assumption+
qed


section \<open>Agent rows are closed by the subagent-stop hook only\<close>

lemma agent_status_ok_step:
  assumes "agent_status_ok st"
  shows "agent_status_ok (step h st)"
proof (cases "\<exists>e r. h = SubagentStop e r")
  case True
  then obtain e r where h: "h = SubagentStop e r" by blast
  with assms show ?thesis
    by (auto simp: agent_status_ok_def subagent_stop_agents)
next
  case False
  with step_agents [of h st] assms show ?thesis
    by (auto simp: agent_status_ok_def)
qed

lemma agent_status_ok_reachable: "reachable st \<Longrightarrow> agent_status_ok st"
proof (erule invariant_reachable)
  show "agent_status_ok initial_state"
    by (simp add: agent_status_ok_def initial_state_def empty_db_def)
qed (rule agent_status_ok_step)

text \<open>
  Claim C10. Neither the session-end hook nor the sweep (alone, or inside the
  session-start hook) changes an agent row, so an agent that is running stays running
  with no \<open>ended_at\<close>. A hook changes an existing agent row only when it is the
  subagent-stop hook, and then to status completed with \<open>ended_at\<close> set; no agent row of
  a reachable state has status interrupted, and a row is running exactly when its
  \<open>ended_at\<close> is null.
\<close>

theorem agents_closed_only_by_subagent_stop:
  "agents (db (session_end e st)) = agents (db st)
   \<and> agents (cleanupStalePendingTools now d) = agents d
   \<and> agents (db (session_start e data st)) = agents (db st)
   \<and> length (agents (db st)) \<le> length (agents (db (step h st)))
   \<and> (\<forall>i < length (agents (db st)).
        agents (db (step h st)) ! i = agents (db st) ! i
        \<or> (\<exists>e' r. h = SubagentStop e' r \<and>
             agents (db (step h st)) ! i
               = (agents (db st) ! i)\<lparr>a_ended_at := Some (clock e'), a_status := Completed\<rparr>))
   \<and> (reachable st \<longrightarrow>
        (\<forall>a \<in> set (agents (db st)).
           a_status a \<noteq> AgentInterrupted \<and> (a_status a = Running \<longleftrightarrow> a_ended_at a = None)))"
proof -
  have "reachable st \<longrightarrow>
        (\<forall>a \<in> set (agents (db st)).
           a_status a \<noteq> AgentInterrupted \<and> (a_status a = Running \<longleftrightarrow> a_ended_at a = None))"
    using agent_status_ok_reachable [of st] by (simp add: agent_status_ok_def)
  moreover have "\<forall>i < length (agents (db st)).
        agents (db (step h st)) ! i = agents (db st) ! i
        \<or> (\<exists>e' r. h = SubagentStop e' r \<and>
             agents (db (step h st)) ! i
               = (agents (db st) ! i)\<lparr>a_ended_at := Some (clock e'), a_status := Completed\<rparr>)"
    using step_agent_row [of _ st h] by blast
  moreover note length_step_agents [of st h]
  ultimately show ?thesis by simp
qed


theorem agents_closed_only_by_subagent_stop_witness:
  "agents (db (session_end env1 example_state)) = agents (db example_state)
   \<and> map a_status (agents (db (session_end env1 example_state))) = [Running, Running]
   \<and> map a_ended_at (agents (db (session_end env1 example_state))) = [None, None]
   \<and> agents (db (step (SubagentStop env1 None) example_state)) ! 0 = agents (db example_state) ! 0
   \<and> agents (db (step (SubagentStop env1 None) example_state)) ! 1
       = (agents (db example_state) ! 1)\<lparr>a_ended_at := Some 10000, a_status := Completed\<rparr>
   \<and> reachable (run spawn_and_stop initial_state)
   \<and> map a_status (agents (db (run spawn_and_stop initial_state))) = [Completed]
   \<and> a_status (agents (db (run spawn_and_stop initial_state)) ! 0) \<noteq> AgentInterrupted"
proof -
  note th1 = agents_closed_only_by_subagent_stop
    [where e = env1 and st = example_state and h = "SubagentStop env1 None"]
  note th2 = agents_closed_only_by_subagent_stop
    [where st = "run spawn_and_stop initial_state"]
  have c1: "agents (db (session_end env1 example_state)) = agents (db example_state)"
    using th1 by (rule conjunct1)
  have c2: "map a_status (agents (db (session_end env1 example_state))) = [Running, Running]"
    by code_simp
  have c3: "map a_ended_at (agents (db (session_end env1 example_state))) = [None, None]"
    by code_simp
  have c4: "agents (db (step (SubagentStop env1 None) example_state)) ! 0
      = agents (db example_state) ! 0"
    by code_simp
  have c5: "agents (db (step (SubagentStop env1 None) example_state)) ! 1
       = (agents (db example_state) ! 1)\<lparr>a_ended_at := Some 10000, a_status := Completed\<rparr>"
    by code_simp
  have c6: "reachable (run spawn_and_stop initial_state)"
    unfolding reachable_def by (rule exI [of _ spawn_and_stop]) (rule refl)
  have c7: "map a_status (agents (db (run spawn_and_stop initial_state))) = [Completed]"
    by code_simp
  then have len: "length (agents (db (run spawn_and_stop initial_state))) = 1"
    using length_map [of a_status "agents (db (run spawn_and_stop initial_state))"] by simp
  then have mem: "agents (db (run spawn_and_stop initial_state)) ! 0
      \<in> set (agents (db (run spawn_and_stop initial_state)))"
    by simp
  have "\<forall>a \<in> set (agents (db (run spawn_and_stop initial_state))).
           a_status a \<noteq> AgentInterrupted \<and> (a_status a = Running \<longleftrightarrow> a_ended_at a = None)"
    using th2 [THEN conjunct2, THEN conjunct2, THEN conjunct2, THEN conjunct2, THEN conjunct2]
      c6 by (rule mp)
  with mem have c8: "a_status (agents (db (run spawn_and_stop initial_state)) ! 0)
      \<noteq> AgentInterrupted"
    by blast
  from c1 c2 c3 c4 c5 c6 c7 c8 show ?thesis
    by (intro conjI) assumption+
qed


end
